theory Spec2Isabelle
  imports Main
begin

section \<open>The persisted job records\<close>

text \<open>
  A job is a row of the shared store. The manager reads the keys \<open>id\<close>,
  \<open>jobtype\<close>, \<open>remote_id\<close> and \<open>instance\<close> of \<open>job.data\<close> and the flag
  \<open>is_claimed\<close>; the scheduling fields are those of the data model.
\<close>

record job =
  job_id :: nat
  jobtype :: string
  remote_id :: string
  job_instance :: string
  details :: "(string \<times> string) list"
  interval :: "nat option"
  claim_after :: nat
  claimed :: bool

text \<open>
  The store: the outstanding job records in insertion order, the current time in
  seconds, and the next fresh record id.
\<close>

record store =
  jobs :: "job list"
  clock :: nat
  next_id :: nat

datatype error = JobClaimedException | JobNotFoundException | JobAlreadyExistsException

text \<open>
  Modelled from the spec: \<open>Job.is_claimable\<close> (class \<open>Job\<close> of
  \<open>common/lib/job.py\<close> is not among the sources). A job is claimable iff it is
  not claimed and the current time has reached \<open>claim_after\<close>.
\<close>

definition is_claimable :: "nat \<Rightarrow> job \<Rightarrow> bool" where
  "is_claimable now j = (\<not> claimed j \<and> claim_after j \<le> now)"

text \<open>
  Modelled from the spec: \<open>queue.get_all_jobs\<close> (the job queue class is not among
  the sources). Filtered enumeration by job type and remote id; with
  \<open>restrict_claimable\<close> only the claimable jobs, without it the full outstanding
  set.
\<close>

definition get_all_jobs :: "store \<Rightarrow> string option \<Rightarrow> string option \<Rightarrow> bool \<Rightarrow> job list" where
  "get_all_jobs q jt rid restrict_claimable =
     filter (\<lambda>j. (case jt of None \<Rightarrow> True | Some t \<Rightarrow> jobtype j = t) \<and>
                 (case rid of None \<Rightarrow> True | Some r \<Rightarrow> remote_id j = r) \<and>
                 (if restrict_claimable then is_claimable (clock q) j else True))
            (jobs q)"

text \<open>
  Modelled from the spec: \<open>queue.add_job\<close>, the ordinary create operation. It fails
  with the duplicate-job condition when an active job of the same
  (jobtype, remote id, instance) exists unclaimed; otherwise a fresh record is
  queued, claimable at once.
\<close>

definition add_job ::
  "store \<Rightarrow> string \<Rightarrow> string \<Rightarrow> (string \<times> string) list \<Rightarrow> nat option \<Rightarrow> string \<Rightarrow> error + store" where
  "add_job q jt rid det iv inst =
     (if \<exists>j \<in> set (jobs q). jobtype j = jt \<and> remote_id j = rid \<and> job_instance j = inst \<and> \<not> claimed j
      then Inl JobAlreadyExistsException
      else Inr (q\<lparr>jobs := jobs q @
                  [\<lparr>job_id = next_id q, jobtype = jt, remote_id = rid, job_instance = inst,
                    details = det, interval = iv, claim_after = 0, claimed = False\<rparr>],
                 next_id := Suc (next_id q)\<rparr>))"

text \<open>
  Modelled from the spec: \<open>Job.claim\<close>, the atomic test-and-set of the claimed flag
  on the record of this id. It fails with \<open>JobClaimedException\<close> (the exception
  the delegation loop catches) when the store holds no unclaimed record of this id.
\<close>

definition claim :: "store \<Rightarrow> job \<Rightarrow> error + store" where
  "claim q j =
     (if \<exists>r \<in> set (jobs q). job_id r = job_id j \<and> \<not> claimed r
      then Inr (q\<lparr>jobs := map (\<lambda>r. if job_id r = job_id j then r\<lparr>claimed := True\<rparr> else r) (jobs q)\<rparr>)
      else Inl JobClaimedException)"

text \<open>
  Modelled from the spec: \<open>Job.release\<close>. It clears the claimed flag and sets the
  next eligible time to now + \<open>claim_after\<close>; the spec gives \<open>delay\<close> no effect
  of its own.
\<close>

definition release :: "store \<Rightarrow> job \<Rightarrow> nat \<Rightarrow> nat \<Rightarrow> store" where
  "release q j delay ca =
     q\<lparr>jobs := map (\<lambda>r. if job_id r = job_id j
                          then r\<lparr>claim_after := clock q + ca, claimed := False\<rparr> else r) (jobs q)\<rparr>"

text \<open>
  Modelled from the spec: \<open>Job.finish\<close>. With \<open>delete\<close> the record is removed for
  good; without it a job with an interval is rescheduled for now + interval and
  any other job leaves the outstanding set.
\<close>

definition finish :: "store \<Rightarrow> job \<Rightarrow> bool \<Rightarrow> store" where
  "finish q j delete =
     (case (if delete then None else interval j) of
        None \<Rightarrow> q\<lparr>jobs := filter (\<lambda>r. job_id r \<noteq> job_id j) (jobs q)\<rparr>
      | Some iv \<Rightarrow>
          q\<lparr>jobs := map (\<lambda>r. if job_id r = job_id j
                               then r\<lparr>claim_after := clock q + iv, claimed := False\<rparr> else r) (jobs q)\<rparr>)"

text \<open>
  Modelled from the spec: \<open>Job.get_by_remote_ID\<close>, the lookup by identity. With
  \<open>own_instance_only=False\<close> no instance is given and the first record of the
  job type and remote id is returned; \<open>JobNotFoundException\<close> if there is none.
  The arguments are optional in the caller, and \<open>None\<close> matches no record.
\<close>

definition get_by_remote_ID :: "store \<Rightarrow> string option \<Rightarrow> string option \<Rightarrow> string option \<Rightarrow> error + job" where
  "get_by_remote_ID q rid jt inst =
     (case filter (\<lambda>j. Some (remote_id j) = rid \<and> Some (jobtype j) = jt \<and>
                        (case inst of None \<Rightarrow> True | Some i \<Rightarrow> job_instance j = i)) (jobs q) of
        [] \<Rightarrow> Inl JobNotFoundException
      | j # _ \<Rightarrow> Inr j)"

section \<open>The worker manager\<close>

text \<open>
  A worker unit is an external collaborator: a thread object, here a handle, bound
  to the job it runs. The manager only calls its methods; those calls are kept in
  a trace. \<open>request_interrupt\<close> carries the level it was called with, \<open>None\<close>
  when the caller passed none.
\<close>

record worker =
  handle :: nat
  job :: job

datatype call = Start worker | Join worker | Request_interrupt worker "int option"

record worker_class =
  max_workers :: int

text \<open>
  The state of \<open>WorkerManager\<close>. \<open>worker_pool\<close> is a dictionary from job type to
  the list of its workers; its keys keep their insertion order.
\<close>

record manager =
  queue :: store
  worker_pool :: "(string \<times> worker list) list"
  stopping_workers :: "nat list"
  looping :: bool
  calls :: "call list"
  next_handle :: nat

text \<open>
  Reading and writing \<open>self.worker_pool[jobtype]\<close>. The source reads only keys
  that are present; an absent key reads as the empty list here. Writing a new key
  appends it, writing a present one keeps its place.
\<close>

definition pool_get :: "(string \<times> worker list) list \<Rightarrow> string \<Rightarrow> worker list" where
  "pool_get pool jt = (case map_of pool jt of None \<Rightarrow> [] | Some ws \<Rightarrow> ws)"

fun pool_set :: "(string \<times> worker list) list \<Rightarrow> string \<Rightarrow> worker list \<Rightarrow> (string \<times> worker list) list" where
  "pool_set [] jt ws = [(jt, ws)]"
| "pool_set ((k, v) # pool) jt ws = (if k = jt then (k, ws) # pool else (k, v) # pool_set pool jt ws)"

subsection \<open>Targeted delete\<close>

text \<open>
  \<open>request_delete\<close>: without a job object the job is looked up by remote id and
  job type over all instances, and a missing job ends the call; then the job is
  finished with deletion. The call touches the store only.
\<close>

definition request_delete :: "manager \<Rightarrow> job option \<Rightarrow> string option \<Rightarrow> string option \<Rightarrow> manager" where
  "request_delete st j rid jt =
     (case j of
        Some j' \<Rightarrow> st\<lparr>queue := finish (queue st) j' True\<rparr>
      | None \<Rightarrow>
          (case get_by_remote_ID (queue st) rid jt None of
             Inl e \<Rightarrow> st
           | Inr j' \<Rightarrow> st\<lparr>queue := finish (queue st) j' True\<rparr>))"

subsection \<open>Targeted interrupt\<close>

text \<open>
  While the manager sleeps, the other parties to the shared store (the persistence
  layer, the cancellation workers, other instances) act on it. One sleep is one
  function on the store, and a call that may sleep takes the list of what happens
  during its successive sleeps. A call that is still sleeping when the list is
  used up has not returned: its value is \<open>None\<close>.
\<close>

type_synonym environment = "store \<Rightarrow> store"

text \<open>
  The inner loop of \<open>request_interrupt\<close> over the active cancellation jobs: a job
  whose \<open>is_claimed\<close> flag is set is passed over, any other is claimed and
  released with \<open>delay=0, claim_after=0\<close>. An exception of \<open>claim\<close> is not caught.
\<close>

fun force_claimable :: "job list \<Rightarrow> store \<Rightarrow> error + store" where
  "force_claimable [] q = Inr q"
| "force_claimable (cancel_job # rest) q =
     (if claimed cancel_job then force_claimable rest q
      else (case claim q cancel_job of
              Inl e \<Rightarrow> Inl e
            | Inr q' \<Rightarrow> force_claimable rest (release q' cancel_job 0 0)))"

text \<open>
  The \<open>while True\<close> loop of \<open>request_interrupt\<close> for the connection \<open>app\<close> of
  the worker: it ends when no cancellation job of that remote id is outstanding,
  and otherwise forces the unclaimed ones claimable and sleeps.
\<close>

fun cancel_queries :: "string \<Rightarrow> environment list \<Rightarrow> store \<Rightarrow> (error + store) option" where
  "cancel_queries app [] q =
     (if get_all_jobs q (Some ''cancel-pg-query'') (Some app) False = [] then Some (Inr q)
      else (case force_claimable (get_all_jobs q (Some ''cancel-pg-query'') (Some app) False) q of
              Inl e \<Rightarrow> Some (Inl e)
            | Inr q' \<Rightarrow> None))"
| "cancel_queries app (env # envs) q =
     (if get_all_jobs q (Some ''cancel-pg-query'') (Some app) False = [] then Some (Inr q)
      else (case force_claimable (get_all_jobs q (Some ''cancel-pg-query'') (Some app) False) q of
              Inl e \<Rightarrow> Some (Inl e)
            | Inr q' \<Rightarrow> cancel_queries app envs (env q')))"

text \<open>
  The test of \<open>request_interrupt\<close> on a pool entry: the job object is given and
  the ids agree, or job type and remote id agree with the (possibly absent)
  arguments.
\<close>

definition matches :: "job option \<Rightarrow> string option \<Rightarrow> string option \<Rightarrow> worker \<Rightarrow> bool" where
  "matches j rid jt w =
     ((case j of None \<Rightarrow> False | Some j' \<Rightarrow> job_id (job w) = job_id j') \<or>
      (Some (jobtype (job w)) = jt \<and> Some (remote_id (job w)) = rid))"

text \<open>
  The \<open>for\<close> loop of \<open>request_interrupt\<close> over the workers of the job type. At the
  first match the cancellation jobs of the worker's connection (\<open>worker.db.appname\<close>,
  a parameter) are waited out, the interrupt is delivered and the call returns.
\<close>

fun interrupt_first ::
  "(worker \<Rightarrow> string) \<Rightarrow> environment list \<Rightarrow> int \<Rightarrow> job option \<Rightarrow> string option \<Rightarrow> string option \<Rightarrow>
   worker list \<Rightarrow> manager \<Rightarrow> (error + manager) option" where
  "interrupt_first appname envs interrupt_level j rid jt [] st = Some (Inr st)"
| "interrupt_first appname envs interrupt_level j rid jt (w # ws) st =
     (if matches j rid jt w then
        (case cancel_queries (appname w) envs (queue st) of
           None \<Rightarrow> None
         | Some (Inl e) \<Rightarrow> Some (Inl e)
         | Some (Inr q') \<Rightarrow>
             Some (Inr (st\<lparr>queue := q',
                           calls := calls st @ [Request_interrupt w (Some interrupt_level)]\<rparr>)))
      else interrupt_first appname envs interrupt_level j rid jt ws st)"

definition request_interrupt ::
  "(worker \<Rightarrow> string) \<Rightarrow> environment list \<Rightarrow> manager \<Rightarrow> int \<Rightarrow> job option \<Rightarrow> string option \<Rightarrow>
   string option \<Rightarrow> (error + manager) option" where
  "request_interrupt appname envs st interrupt_level j rid jt =
     (case (case j of Some j' \<Rightarrow> Some (jobtype j') | None \<Rightarrow> jt) of
        None \<Rightarrow> Some (Inr st)
      | Some t \<Rightarrow>
          if t \<notin> set (map fst (worker_pool st)) then Some (Inr st)
          else interrupt_first appname envs interrupt_level j rid (Some t)
                 (pool_get (worker_pool st) t) st)"

subsection \<open>Graceful stop\<close>

text \<open>
  The \<open>for\<close> loop of \<open>abort\<close>: every outstanding cancellation job is claimed and
  released with \<open>delay=0, claim_after=0\<close>; an exception of \<open>claim\<close> is not caught.
\<close>

fun cancel_all :: "job list \<Rightarrow> store \<Rightarrow> error + store" where
  "cancel_all [] q = Inr q"
| "cancel_all (j # js) q =
     (case claim q j of
        Inl e \<Rightarrow> Inl e
      | Inr q' \<Rightarrow> cancel_all js (release q' j 0 0))"

text \<open>The \<open>while\<close> loop of \<open>abort\<close>: sleep as long as a cancellation job is outstanding.\<close>

fun wait_cancelled :: "environment list \<Rightarrow> store \<Rightarrow> store option" where
  "wait_cancelled [] q =
     (if get_all_jobs q (Some ''cancel-pg-query'') None False = [] then Some q else None)"
| "wait_cancelled (env # envs) q =
     (if get_all_jobs q (Some ''cancel-pg-query'') None False = [] then Some q
      else wait_cancelled envs (env q))"

definition abort :: "environment list \<Rightarrow> manager \<Rightarrow> (error + manager) option" where
  "abort envs st =
     (case cancel_all (get_all_jobs (queue st) (Some ''cancel-pg-query'') None False) (queue st) of
        Inl e \<Rightarrow> Some (Inl e)
      | Inr q \<Rightarrow>
          (case wait_cancelled envs q of
             None \<Rightarrow> None
           | Some q' \<Rightarrow> Some (Inr (st\<lparr>queue := q', looping := False\<rparr>))))"

subsection \<open>The delegation loop\<close>

text \<open>
  The inner loop of the reconciliation pass over the workers of one job type.
  \<open>all_workers\<close> is the very list \<open>self.worker_pool[jobtype]\<close>, so removing a
  worker shortens the list under the iterator: the \<open>for\<close> statement reads index
  \<open>i\<close> of the list as it is now and stops when \<open>i\<close> reaches its length.
  \<open>list.remove\<close> removes the first equal element. \<open>is_alive\<close> is what the
  worker threads answer during this tick.
\<close>

function reconcile_workers ::
  "(worker \<Rightarrow> bool) \<Rightarrow> nat list \<Rightarrow> nat \<Rightarrow> worker list \<Rightarrow> nat list \<Rightarrow> call list \<Rightarrow>
   worker list \<times> nat list \<times> call list" where
  "reconcile_workers is_alive known_job_ids i all_workers stopping cs =
     (if i < length all_workers then
        (if \<not> is_alive (all_workers ! i) then
           reconcile_workers is_alive known_job_ids (Suc i) (remove1 (all_workers ! i) all_workers)
             (if job_id (job (all_workers ! i)) \<in> set stopping
              then remove1 (job_id (job (all_workers ! i))) stopping else stopping)
             (cs @ [Join (all_workers ! i)])
         else if job_id (job (all_workers ! i)) \<notin> set known_job_ids \<and>
                 job_id (job (all_workers ! i)) \<notin> set stopping then
           reconcile_workers is_alive known_job_ids (Suc i) all_workers
             (stopping @ [job_id (job (all_workers ! i))])
             (cs @ [Request_interrupt (all_workers ! i) None])
         else reconcile_workers is_alive known_job_ids (Suc i) all_workers stopping cs)
      else (all_workers, stopping, cs))"
  by pat_completeness auto
termination
  apply (relation "measure (\<lambda>(is_alive, known_job_ids, i, all_workers, stopping, cs). length all_workers - i)")
     apply simp
    apply (simp add: length_remove1)
   apply simp
  apply simp
  done

declare reconcile_workers.simps [simp del]

text \<open>The outer loop of the reconciliation pass, over the job types of the pool.\<close>

fun reconcile_pool :: "(worker \<Rightarrow> bool) \<Rightarrow> nat list \<Rightarrow> string list \<Rightarrow> manager \<Rightarrow> manager" where
  "reconcile_pool is_alive known_job_ids [] st = st"
| "reconcile_pool is_alive known_job_ids (jt # jts) st =
     (case reconcile_workers is_alive known_job_ids 0 (pool_get (worker_pool st) jt)
             (stopping_workers st) (calls st) of
        (ws, stopping, cs) \<Rightarrow>
          reconcile_pool is_alive known_job_ids jts
            (st\<lparr>worker_pool := pool_set (worker_pool st) jt ws,
                stopping_workers := stopping, calls := cs\<rparr>))"

text \<open>
  The body of the assignment loop for one job of the snapshot. \<open>workers\<close> is the
  registry \<open>all_modules.workers\<close>. The new worker gets a fresh handle and is bound
  to the job object, now claimed. \<open>claim\<close> raises nothing but
  \<open>JobClaimedException\<close>, which is passed over.
\<close>

definition assign_job :: "(string \<rightharpoonup> worker_class) \<Rightarrow> manager \<Rightarrow> job \<Rightarrow> manager" where
  "assign_job workers st j =
     (if \<not> is_claimable (clock (queue st)) j then st
      else (case workers (jobtype j) of
              None \<Rightarrow> st
            | Some wc \<Rightarrow>
                (let st1 = (if jobtype j \<notin> set (map fst (worker_pool st))
                            then st\<lparr>worker_pool := pool_set (worker_pool st) (jobtype j) []\<rparr> else st)
                 in if int (length (pool_get (worker_pool st1) (jobtype j))) < max_workers wc then
                      (case claim (queue st1) j of
                         Inl e \<Rightarrow> st1
                       | Inr q' \<Rightarrow>
                           st1\<lparr>queue := q',
                               worker_pool := pool_set (worker_pool st1) (jobtype j)
                                 (pool_get (worker_pool st1) (jobtype j) @
                                    [\<lparr>handle = next_handle st1, job = j\<lparr>claimed := True\<rparr>\<rparr>]),
                               calls := calls st1 @ [Start \<lparr>handle = next_handle st1, job = j\<lparr>claimed := True\<rparr>\<rparr>],
                               next_handle := Suc (next_handle st1)\<rparr>)
                    else st1)))"

text \<open>
  One tick: the snapshot of all outstanding jobs, the reconciliation pass, the
  assignment loop over the snapshot, and the sleep, during which the environment
  acts on the store.
\<close>

definition delegate ::
  "(string \<rightharpoonup> worker_class) \<Rightarrow> (worker \<Rightarrow> bool) \<Rightarrow> environment \<Rightarrow> manager \<Rightarrow> manager" where
  "delegate workers is_alive env st =
     (let snapshot = get_all_jobs (queue st) None None False;
          st1 = reconcile_pool is_alive (map job_id snapshot) (map fst (worker_pool st)) st;
          st2 = foldl (assign_job workers) st1 snapshot
      in st2\<lparr>queue := env (queue st2)\<rparr>)"

text \<open>
  The tick cycle of \<open>loop\<close>: one element of \<open>ticks\<close> per tick, the answers of the
  worker threads and what the sleep brings. The stop flag is read before every
  tick. The shutdown sequence after the cycle is left out; no statement below is
  about it.
\<close>

fun loop :: "(string \<rightharpoonup> worker_class) \<Rightarrow> ((worker \<Rightarrow> bool) \<times> environment) list \<Rightarrow> manager \<Rightarrow> manager" where
  "loop workers [] st = st"
| "loop workers (t # ticks) st =
     (if looping st then loop workers ticks (delegate workers (fst t) (snd t) st) else st)"

subsection \<open>Startup\<close>

text \<open>
  \<open>__init__\<close>: the data sources are initialised (an external step on the store),
  the four maintenance jobs are queued with the instance id as remote id and as
  instance, and the loop is entered from the initial manager state. An exception
  of \<open>add_job\<close> is not caught.
\<close>

definition manager_init ::
  "(string \<rightharpoonup> worker_class) \<Rightarrow> environment \<Rightarrow> ((worker \<Rightarrow> bool) \<times> environment) list \<Rightarrow> string \<Rightarrow>
   store \<Rightarrow> error + manager" where
  "manager_init workers validate_datasources ticks instance_id q =
     (case add_job (validate_datasources q) ''api'' instance_id [] None instance_id of
        Inl e \<Rightarrow> Inl e
      | Inr q1 \<Rightarrow>
     (case add_job q1 ''expire-datasets'' instance_id [] (Some 300) instance_id of
        Inl e \<Rightarrow> Inl e
      | Inr q2 \<Rightarrow>
     (case add_job q2 ''datasource-metrics'' instance_id [] (Some 86400) instance_id of
        Inl e \<Rightarrow> Inl e
      | Inr q3 \<Rightarrow>
     (case add_job q3 ''clean-temp-files'' instance_id [] (Some 3600) instance_id of
        Inl e \<Rightarrow> Inl e
      | Inr q4 \<Rightarrow>
          Inr (loop workers ticks
                 \<lparr>queue = q4, worker_pool = [], stopping_workers = [], looping = True,
                  calls = [], next_handle = 0\<rparr>)))))"

section \<open>The board scraper\<close>

text \<open>
  The rows of the \<open>threads\<close> table. A column the insert does not give is 0.
\<close>

record thread_row =
  thread_id :: int
  board :: string
  index_positions :: string
  timestamp_scraped :: int
  timestamp_modified :: int
  timestamp_deleted :: int

record scraper =
  scraper_queue :: store
  db_threads :: "thread_row list"
  position :: int
  loop_time :: int

text \<open>Python's \<open>str\<close> on an integer.\<close>

fun str_nat :: "nat \<Rightarrow> string" where
  "str_nat n = (if n < 10 then [''0123456789'' ! n]
                else str_nat (n div 10) @ [''0123456789'' ! (n mod 10)])"

declare str_nat.simps [simp del]

definition str_int :: "int \<Rightarrow> string" where
  "str_int i = (if i < 0 then CHR ''-'' # str_nat (nat (- i)) else str_nat (nat i))"

definition required_fields :: "string list" where
  "required_fields = [''no'', ''last_modified'']"

text \<open>
  \<open>save_thread\<close>. \<open>thread\<close> is the parsed JSON object with integer values, \<open>inst\<close>
  the instance \<open>add_job\<close> files the job under when the caller names none. The
  result is the number of new threads, 0 also for Python's \<open>False\<close>. Of the
  exceptions of \<open>add_job\<close> only \<open>JobAlreadyExistsException\<close> is caught.
\<close>

definition save_thread ::
  "string \<Rightarrow> scraper \<Rightarrow> (string \<times> int) list \<Rightarrow> job \<Rightarrow> error + scraper \<times> int" where
  "save_thread inst s thread j =
     (if set required_fields - set (map fst thread) \<noteq> {} then Inr (s, 0)
      else (case (map_of thread ''no'', map_of thread ''last_modified'') of
              (Some no, Some last_modified) \<Rightarrow>
                (case (case add_job (scraper_queue s) ''thread'' (str_int no)
                               [(''board'', remote_id j)] None inst of
                         Inl e \<Rightarrow> if e = JobAlreadyExistsException then Inr (scraper_queue s) else Inl e
                       | Inr q' \<Rightarrow> Inr q') of
                   Inl e \<Rightarrow> Inl e
                 | Inr q' \<Rightarrow>
                     (let thread_row = find (\<lambda>r. thread_id r = no) (db_threads s);
                          new_thread = (if thread_row = None then 1 else 0);
                          rows = (if thread_row = None
                                  then db_threads s @
                                    [\<lparr>thread_id = no, board = remote_id j, index_positions = [],
                                      timestamp_scraped = 0, timestamp_modified = 0,
                                      timestamp_deleted = 0\<rparr>]
                                  else db_threads s);
                          position_update = str_int (loop_time s) @ '':'' @ str_int (position s) @ '',''
                      in Inr (s\<lparr>scraper_queue := q',
                                db_threads := map (\<lambda>r. if thread_id r = no
                                   then r\<lparr>index_positions := index_positions r @ position_update,
                                          timestamp_scraped := loop_time s,
                                          timestamp_modified := last_modified\<rparr>
                                   else r) rows\<rparr>, new_thread)))
            | _ \<Rightarrow> Inr (s, 0)))"

section \<open>Predicates of the statements\<close>

text \<open>
  The assignment step for a job starts a worker when the job is claimable, its job
  type is registered with room in the pool, and the claim succeeds: the tests the
  step makes, in its order.
\<close>

definition spawns :: "(string \<rightharpoonup> worker_class) \<Rightarrow> manager \<Rightarrow> job \<Rightarrow> bool" where
  "spawns workers st j =
     (is_claimable (clock (queue st)) j \<and>
      (case workers (jobtype j) of
         None \<Rightarrow> False
       | Some wc \<Rightarrow> int (length (pool_get (worker_pool st) (jobtype j))) < max_workers wc) \<and>
      (\<exists>r \<in> set (jobs (queue st)). job_id r = job_id j \<and> \<not> claimed r))"

text \<open>
  A pool within capacity: every registered job type has at most \<open>max_workers\<close>
  workers and no other job type has any.
\<close>

definition within_capacity :: "(string \<rightharpoonup> worker_class) \<Rightarrow> (string \<times> worker list) list \<Rightarrow> bool" where
  "within_capacity workers pool =
     (\<forall>jt. case workers jt of
              None \<Rightarrow> pool_get pool jt = []
            | Some wc \<Rightarrow> int (length (pool_get pool jt)) \<le> max_workers wc)"

text \<open>
  The number of interrupts in a call trace that went to workers bound to the job
  of id \<open>x\<close>.
\<close>

fun interrupts_job :: "nat \<Rightarrow> call \<Rightarrow> bool" where
  "interrupts_job x (Request_interrupt w l) = (job_id (job w) = x)"
| "interrupts_job x c = False"

definition issued :: "nat \<Rightarrow> call list \<Rightarrow> nat" where
  "issued x cs = length (filter (interrupts_job x) cs)"

text \<open>
  From stopping set \<open>s\<close> and trace \<open>c\<close> to \<open>s'\<close> and \<open>c'\<close>: at most one more
  interrupt for job \<open>x\<close>, none if \<open>x\<close> was in the stopping set, and \<open>x\<close> is in the
  stopping set afterwards iff it was before or an interrupt was added.
\<close>

definition once :: "nat \<Rightarrow> nat list \<Rightarrow> call list \<Rightarrow> nat list \<Rightarrow> call list \<Rightarrow> bool" where
  "once x s c s' c' =
     (issued x c \<le> issued x c' \<and>
      issued x c' \<le> issued x c + (if x \<in> set s then 0 else 1) \<and>
      (x \<in> set s' \<longleftrightarrow> x \<in> set s \<or> issued x c < issued x c'))"

text \<open>Every pool worker bound to the job of id \<open>x\<close> answers \<open>is_alive\<close> with true.\<close>

definition bound_live :: "nat \<Rightarrow> (worker \<Rightarrow> bool) \<Rightarrow> manager \<Rightarrow> bool" where
  "bound_live x al st =
     (\<forall>jt. \<forall>w \<in> set (pool_get (worker_pool st) jt). job_id (job w) = x \<longrightarrow> al w)"

text \<open>
  The worker list after one pass, told by position: a live entry stays; a non-live
  entry is removed and the entry after it is passed over, so it stays.
\<close>

fun survivors :: "('a \<Rightarrow> bool) \<Rightarrow> 'a list \<Rightarrow> 'a list" where
  "survivors al [] = []"
| "survivors al [w] = (if al w then [w] else [])"
| "survivors al (w # y # zs) = (if al w then w # survivors al (y # zs) else y # survivors al zs)"

text \<open>
  Whether the iterator of a pass reads the entry at position \<open>k\<close> of the list as it
  was before the pass: the first entry is read, and an entry is read unless the
  entry before it was read and removed.
\<close>

fun reached :: "('a \<Rightarrow> bool) \<Rightarrow> 'a list \<Rightarrow> nat \<Rightarrow> bool" where
  "reached al ws 0 = True"
| "reached al ws (Suc k) = (\<not> (reached al ws k \<and> \<not> al (ws ! k)))"

section \<open>Concrete states\<close>

text \<open>Small jobs and manager states on which the statements below are evaluated.\<close>

definition a_job :: "nat \<Rightarrow> string \<Rightarrow> string \<Rightarrow> bool \<Rightarrow> job" where
  "a_job i jt rid c = \<lparr>job_id = i, jobtype = jt, remote_id = rid, job_instance = ''x'', details = [],
     interval = None, claim_after = 0, claimed = c\<rparr>"

definition a_manager :: "job list \<Rightarrow> (string \<times> worker list) list \<Rightarrow> manager" where
  "a_manager js pool = \<lparr>queue = \<lparr>jobs = js, clock = 10, next_id = 100\<rparr>, worker_pool = pool,
     stopping_workers = [], looping = True, calls = [], next_handle = 100\<rparr>"


definition a_worker :: "nat \<Rightarrow> job \<Rightarrow> worker" where
  "a_worker h j = \<lparr>handle = h, job = j\<rparr>"

text \<open>The record \<open>add_job\<close> files for a job of the instance, its remote id the instance id.\<close>

definition maintenance_job :: "nat \<Rightarrow> string \<Rightarrow> nat option \<Rightarrow> string \<Rightarrow> job" where
  "maintenance_job i jt iv instance_id =
     \<lparr>job_id = i, jobtype = jt, remote_id = instance_id, job_instance = instance_id, details = [],
      interval = iv, claim_after = 0, claimed = False\<rparr>"

text \<open>A scraper at position 3 of a board scrape started at time 1700.\<close>

definition a_scraper :: "job list \<Rightarrow> thread_row list \<Rightarrow> scraper" where
  "a_scraper js rows = \<lparr>scraper_queue = \<lparr>jobs = js, clock = 10, next_id = 100\<rparr>, db_threads = rows,
     position = 3, loop_time = 1700\<rparr>"

section \<open>Properties of the targeted delete\<close>

lemma get_all_jobs_all: "get_all_jobs q None None False = jobs q"
  by (simp add: get_all_jobs_def)

lemma jobs_finish_delete: "jobs (finish q j True) = filter (\<lambda>r. job_id r \<noteq> job_id j) (jobs q)"
  by (simp add: finish_def)

lemma finish_delete_absent:
  "\<forall>r \<in> set (jobs q). job_id r \<noteq> job_id j \<Longrightarrow> finish q j True = q"
  by (simp add: finish_def filter_id_conv)

lemma get_by_remote_ID_found:
  "\<exists>r \<in> set (jobs q). Some (remote_id r) = rid \<and> Some (jobtype r) = jt \<Longrightarrow>
   \<exists>j' \<in> set (jobs q). Some (remote_id j') = rid \<and> Some (jobtype j') = jt \<and>
      get_by_remote_ID q rid jt None = Inr j'"
proof -
  assume ex: "\<exists>r \<in> set (jobs q). Some (remote_id r) = rid \<and> Some (jobtype r) = jt"
  let ?P = "\<lambda>j. Some (remote_id j) = rid \<and> Some (jobtype j) = jt"
  from ex have "filter ?P (jobs q) \<noteq> []"
    by (auto simp: filter_empty_conv)
  then obtain j' rest where f: "filter ?P (jobs q) = j' # rest"
    by (cases "filter ?P (jobs q)") auto
  then have "j' \<in> set (filter ?P (jobs q))" by simp
  then have "j' \<in> set (jobs q)" "?P j'" by auto
  moreover from f have "get_by_remote_ID q rid jt None = Inr j'"
    by (simp add: get_by_remote_ID_def)
  ultimately show ?thesis by blast
qed

lemma get_by_remote_ID_missing:
  "\<not> (\<exists>r \<in> set (jobs q). Some (remote_id r) = rid \<and> Some (jobtype r) = jt) \<Longrightarrow>
   get_by_remote_ID q rid jt None = Inl JobNotFoundException"
proof -
  assume "\<not> (\<exists>r \<in> set (jobs q). Some (remote_id r) = rid \<and> Some (jobtype r) = jt)"
  then have "filter (\<lambda>j. Some (remote_id j) = rid \<and> Some (jobtype j) = jt) (jobs q) = []"
    by (auto simp: filter_empty_conv)
  then show ?thesis by (simp add: get_by_remote_ID_def)
qed

text \<open>
  Claim C4. A targeted delete of a job that exists, given as a job object or found
  by remote id and job type, finishes it with deletion, and afterwards no record
  of that job's id is in the full enumeration of outstanding jobs. When the
  lookup finds no job, or the store holds no record of the given job object's id,
  the call returns the state as it was.
\<close>

theorem request_delete_removes_or_returns:
  "(j = Some j' \<longrightarrow>
      request_delete st j rid jt = st\<lparr>queue := finish (queue st) j' True\<rparr> \<and>
      (\<forall>r \<in> set (get_all_jobs (queue (request_delete st j rid jt)) None None False).
          job_id r \<noteq> job_id j')) \<and>
   (j = None \<longrightarrow> (\<exists>r \<in> set (jobs (queue st)). Some (remote_id r) = rid \<and> Some (jobtype r) = jt) \<longrightarrow>
      (\<exists>f \<in> set (jobs (queue st)). Some (remote_id f) = rid \<and> Some (jobtype f) = jt \<and>
          request_delete st j rid jt = st\<lparr>queue := finish (queue st) f True\<rparr> \<and>
          (\<forall>r \<in> set (get_all_jobs (queue (request_delete st j rid jt)) None None False).
              job_id r \<noteq> job_id f))) \<and>
   (j = None \<longrightarrow> \<not> (\<exists>r \<in> set (jobs (queue st)). Some (remote_id r) = rid \<and> Some (jobtype r) = jt) \<longrightarrow>
      request_delete st j rid jt = st) \<and>
   (j = Some j' \<longrightarrow> (\<forall>r \<in> set (jobs (queue st)). job_id r \<noteq> job_id j') \<longrightarrow>
      request_delete st j rid jt = st)"
proof (intro conjI impI)
  assume "j = Some j'"
  then show "request_delete st j rid jt = st\<lparr>queue := finish (queue st) j' True\<rparr>"
    by (simp add: request_delete_def)
next
  assume "j = Some j'"
  then show "\<forall>r \<in> set (get_all_jobs (queue (request_delete st j rid jt)) None None False).
      job_id r \<noteq> job_id j'"
    by (simp add: request_delete_def get_all_jobs_all jobs_finish_delete)
next
  assume n: "j = None"
    and ex: "\<exists>r \<in> set (jobs (queue st)). Some (remote_id r) = rid \<and> Some (jobtype r) = jt"
  from get_by_remote_ID_found [OF ex] obtain f where
    f: "f \<in> set (jobs (queue st))" "Some (remote_id f) = rid" "Some (jobtype f) = jt"
       "get_by_remote_ID (queue st) rid jt None = Inr f"
    by blast
  from n f(4) have r: "request_delete st j rid jt = st\<lparr>queue := finish (queue st) f True\<rparr>"
    by (simp add: request_delete_def)
  have "\<forall>r \<in> set (get_all_jobs (queue (request_delete st j rid jt)) None None False).
      job_id r \<noteq> job_id f"
    by (simp add: r get_all_jobs_all jobs_finish_delete)
  with f r show "\<exists>f \<in> set (jobs (queue st)). Some (remote_id f) = rid \<and> Some (jobtype f) = jt \<and>
          request_delete st j rid jt = st\<lparr>queue := finish (queue st) f True\<rparr> \<and>
          (\<forall>r \<in> set (get_all_jobs (queue (request_delete st j rid jt)) None None False).
              job_id r \<noteq> job_id f)"
    by blast
next
  assume "j = None"
    and "\<not> (\<exists>r \<in> set (jobs (queue st)). Some (remote_id r) = rid \<and> Some (jobtype r) = jt)"
  then show "request_delete st j rid jt = st"
    by (simp add: request_delete_def get_by_remote_ID_missing)
next
  assume "j = Some j'" and "\<forall>r \<in> set (jobs (queue st)). job_id r \<noteq> job_id j'"
  then show "request_delete st j rid jt = st"
    by (simp add: request_delete_def finish_delete_absent)
qed

theorem request_delete_removes_or_returns_witness:
  "get_all_jobs (queue (request_delete
       (a_manager [a_job 1 ''thread'' ''123'' False, a_job 2 ''thread'' ''456'' True] [])
       None (Some ''456'') (Some ''thread''))) None None False = [a_job 1 ''thread'' ''123'' False] \<and>
   request_delete (a_manager [a_job 1 ''thread'' ''123'' False] []) None (Some ''9'') (Some ''thread'')
     = a_manager [a_job 1 ''thread'' ''123'' False] [] \<and>
   request_delete (a_manager [a_job 1 ''thread'' ''123'' False] []) (Some (a_job 7 ''thread'' ''9'' False)) None None
     = a_manager [a_job 1 ''thread'' ''123'' False] []"
  using request_delete_removes_or_returns
    [of None undefined "a_manager [a_job 1 ''thread'' ''123'' False, a_job 2 ''thread'' ''456'' True] []"
        "Some ''456''" "Some ''thread''"]
    request_delete_removes_or_returns
    [of None undefined "a_manager [a_job 1 ''thread'' ''123'' False] []" "Some ''9''" "Some ''thread''"]
    request_delete_removes_or_returns
    [of "Some (a_job 7 ''thread'' ''9'' False)" "a_job 7 ''thread'' ''9'' False"
        "a_manager [a_job 1 ''thread'' ''123'' False] []" None None]
  by (simp add: a_manager_def a_job_def request_delete_def get_by_remote_ID_def finish_def get_all_jobs_def)

section \<open>Properties of the targeted interrupt\<close>

lemma claim_Inr:
  "claim q j = Inr q1 \<Longrightarrow>
   q1 = q\<lparr>jobs := map (\<lambda>r. if job_id r = job_id j then r\<lparr>claimed := True\<rparr> else r) (jobs q)\<rparr>"
  by (simp add: claim_def split: if_splits)

lemma claim_error: "claim q j = Inl e \<Longrightarrow> e = JobClaimedException"
  by (simp add: claim_def split: if_splits)

lemma claim_release:
  "claim q j = Inr q1 \<Longrightarrow>
   release q1 j 0 0 =
     q\<lparr>jobs := map (\<lambda>r. if job_id r = job_id j then r\<lparr>claim_after := clock q, claimed := False\<rparr> else r)
                   (jobs q)\<rparr>"
  by (drule claim_Inr) (simp add: release_def o_def if_distrib cong: if_cong)

lemma claim_succeeds:
  "r \<in> set (jobs q) \<Longrightarrow> job_id r = job_id j \<Longrightarrow> \<not> claimed r \<Longrightarrow> \<exists>q1. claim q j = Inr q1"
  by (auto simp: claim_def)

text \<open>The store after the unclaimed jobs of \<open>js\<close> have been claimed and released.\<close>

lemma force_claimable_result:
  "force_claimable js q = Inr q1 \<Longrightarrow>
   q1 = q\<lparr>jobs := map (\<lambda>r. if job_id r \<in> job_id ` {j \<in> set js. \<not> claimed j}
                            then r\<lparr>claim_after := clock q, claimed := False\<rparr> else r) (jobs q)\<rparr>"
proof (induction js arbitrary: q)
  case Nil
  then show ?case by (simp add: map_idI)
next
  case (Cons j js)
  show ?case
  proof (cases "claimed j")
    case True
    with Cons.prems have "force_claimable js q = Inr q1" by simp
    moreover from True have "{j' \<in> set (j # js). \<not> claimed j'} = {j' \<in> set js. \<not> claimed j'}"
      by auto
    ultimately show ?thesis using Cons.IH [of q] by simp
  next
    case False
    with Cons.prems obtain qc where c: "claim q j = Inr qc"
      and f: "force_claimable js (release qc j 0 0) = Inr q1"
      by (auto split: sum.splits)
    let ?q2 = "release qc j 0 0"
    have q2: "?q2 = q\<lparr>jobs := map (\<lambda>r. if job_id r = job_id j
        then r\<lparr>claim_after := clock q, claimed := False\<rparr> else r) (jobs q)\<rparr>"
      by (rule claim_release [OF c])
    from Cons.IH [OF f] have "q1 = ?q2\<lparr>jobs := map (\<lambda>r. if job_id r \<in> job_id ` {j \<in> set js. \<not> claimed j}
                            then r\<lparr>claim_after := clock ?q2, claimed := False\<rparr> else r) (jobs ?q2)\<rparr>" .
    moreover from False have "{j' \<in> set (j # js). \<not> claimed j'} = insert j {j' \<in> set js. \<not> claimed j'}"
      by auto
    ultimately show ?thesis
      by (simp add: q2 o_def)
  qed
qed

lemma force_claimable_no_error:
  "\<forall>j \<in> set js. \<not> claimed j \<longrightarrow> (\<exists>r \<in> set (jobs q). job_id r = job_id j \<and> \<not> claimed r) \<Longrightarrow>
   \<exists>q1. force_claimable js q = Inr q1"
proof (induction js arbitrary: q)
  case Nil
  then show ?case by simp
next
  case (Cons j js)
  show ?case
  proof (cases "claimed j")
    case True
    with Cons show ?thesis by simp
  next
    case False
    with Cons.prems obtain r where "r \<in> set (jobs q)" "job_id r = job_id j" "\<not> claimed r"
      by auto
    then obtain qc where c: "claim q j = Inr qc"
      using claim_succeeds by blast
    let ?q2 = "release qc j 0 0"
    have q2: "?q2 = q\<lparr>jobs := map (\<lambda>r. if job_id r = job_id j
        then r\<lparr>claim_after := clock q, claimed := False\<rparr> else r) (jobs q)\<rparr>"
      by (rule claim_release [OF c])
    have "\<forall>j' \<in> set js. \<not> claimed j' \<longrightarrow> (\<exists>r \<in> set (jobs ?q2). job_id r = job_id j' \<and> \<not> claimed r)"
    proof (intro ballI impI)
      fix j' assume "j' \<in> set js" "\<not> claimed j'"
      with Cons.prems obtain r' where r': "r' \<in> set (jobs q)" "job_id r' = job_id j'" "\<not> claimed r'"
        by auto
      let ?f = "\<lambda>r. if job_id r = job_id j then r\<lparr>claim_after := clock q, claimed := False\<rparr> else r"
      from r' have "?f r' \<in> set (jobs ?q2)" "job_id (?f r') = job_id j'" "\<not> claimed (?f r')"
        by (auto simp: q2)
      then show "\<exists>r \<in> set (jobs ?q2). job_id r = job_id j' \<and> \<not> claimed r" by blast
    qed
    from Cons.IH [OF this] c False show ?thesis by simp
  qed
qed

lemma force_claimable_snapshot:
  "\<exists>q1. force_claimable (get_all_jobs q jt rid False) q = Inr q1"
  by (rule force_claimable_no_error) (auto simp: get_all_jobs_def)







lemma interrupt_first_match:
  "find (matches j rid jt) ws = Some w \<Longrightarrow>
   interrupt_first appname envs level j rid jt ws st =
     (case cancel_queries (appname w) envs (queue st) of
        None \<Rightarrow> None
      | Some (Inl e) \<Rightarrow> Some (Inl e)
      | Some (Inr q') \<Rightarrow>
          Some (Inr (st\<lparr>queue := q', calls := calls st @ [Request_interrupt w (Some level)]\<rparr>)))"
  by (induction ws) (auto split: if_splits)

lemma pool_get_no_key: "t \<notin> set (map fst pool) \<Longrightarrow> pool_get pool t = []"
  by (simp add: pool_get_def map_of_eq_None_iff [THEN iffD2])

lemma request_interrupt_unfold:
  "request_interrupt appname envs st level j rid jt =
     (case (case j of Some j' \<Rightarrow> Some (jobtype j') | None \<Rightarrow> jt) of
        None \<Rightarrow> Some (Inr st)
      | Some t \<Rightarrow> interrupt_first appname envs level j rid (Some t) (pool_get (worker_pool st) t) st)"
  by (auto simp: request_interrupt_def pool_get_no_key split: option.splits)




text \<open>
  Claim C9. A call of \<open>request_interrupt\<close> that returns after finding a matching
  pool entry has delivered exactly one interrupt, to the first matching entry of
  the job type's list in pool order; no later entry, matching or not, receives
  anything, and the pool is unchanged.
\<close>

theorem request_interrupt_first_match_only:
  assumes "request_interrupt appname envs st level j rid jt = Some (Inr st')"
    and "(case j of Some j' \<Rightarrow> Some (jobtype j') | None \<Rightarrow> jt) = Some t"
    and "pool_get (worker_pool st) t = before @ w # rest"
    and "\<forall>p \<in> set before. \<not> matches j rid (Some t) p"
    and "matches j rid (Some t) w"
  shows "calls st' = calls st @ [Request_interrupt w (Some level)] \<and>
         (\<forall>w' l. Request_interrupt w' l \<in> set (drop (length (calls st)) (calls st')) \<longrightarrow>
                  w' = w \<and> l = Some level) \<and>
         worker_pool st' = worker_pool st"
proof -
  from assms(3-5) have "find (matches j rid (Some t)) (pool_get (worker_pool st) t) = Some w"
    by (simp add: find_Some_iff) (metis nth_append_length nth_append nth_mem length_append
        less_add_same_cancel1 list.size(4) add_Suc_right zero_less_Suc)
  from interrupt_first_match [OF this, of appname envs level st] assms(1,2)
  have "st' = st\<lparr>queue := queue st', calls := calls st @ [Request_interrupt w (Some level)]\<rparr>"
    unfolding request_interrupt_unfold
    by (auto split: option.splits sum.splits)
  then have c: "calls st' = calls st @ [Request_interrupt w (Some level)]"
    and p: "worker_pool st' = worker_pool st"
    by (metis manager.select_convs(5) manager.surjective manager.update_convs(1,5),
        metis manager.select_convs(2) manager.surjective manager.update_convs(1,5))
  from c p show ?thesis by simp
qed


theorem request_interrupt_first_match_only_witness:
  "request_interrupt (\<lambda>w. ''worker-7'') []
     (a_manager [a_job 1 ''thread'' ''123'' True]
        [(''thread'', [a_worker 0 (a_job 1 ''thread'' ''123'' True), a_worker 1 (a_job 3 ''thread'' ''123'' True)])])
     1 None (Some ''123'') (Some ''thread'')
   = Some (Inr ((a_manager [a_job 1 ''thread'' ''123'' True]
        [(''thread'', [a_worker 0 (a_job 1 ''thread'' ''123'' True), a_worker 1 (a_job 3 ''thread'' ''123'' True)])])
        \<lparr>calls := [Request_interrupt (a_worker 0 (a_job 1 ''thread'' ''123'' True)) (Some 1)]\<rparr>)) \<and>
   matches None (Some ''123'') (Some ''thread'') (a_worker 1 (a_job 3 ''thread'' ''123'' True)) \<and>
   calls ((a_manager [a_job 1 ''thread'' ''123'' True]
        [(''thread'', [a_worker 0 (a_job 1 ''thread'' ''123'' True), a_worker 1 (a_job 3 ''thread'' ''123'' True)])])
        \<lparr>calls := [Request_interrupt (a_worker 0 (a_job 1 ''thread'' ''123'' True)) (Some 1)]\<rparr>)
     = calls (a_manager [a_job 1 ''thread'' ''123'' True]
        [(''thread'', [a_worker 0 (a_job 1 ''thread'' ''123'' True), a_worker 1 (a_job 3 ''thread'' ''123'' True)])])
       @ [Request_interrupt (a_worker 0 (a_job 1 ''thread'' ''123'' True)) (Some 1)]"
proof -
  let ?st = "a_manager [a_job 1 ''thread'' ''123'' True]
        [(''thread'', [a_worker 0 (a_job 1 ''thread'' ''123'' True), a_worker 1 (a_job 3 ''thread'' ''123'' True)])]"
  let ?w = "a_worker 0 (a_job 1 ''thread'' ''123'' True)"
  have r: "request_interrupt (\<lambda>w. ''worker-7'') [] ?st 1 None (Some ''123'') (Some ''thread'')
      = Some (Inr (?st\<lparr>calls := [Request_interrupt ?w (Some 1)]\<rparr>))"
    by (simp add: request_interrupt_def pool_get_def matches_def a_manager_def a_job_def a_worker_def
        get_all_jobs_def)
  have t: "(case None of Some j' \<Rightarrow> Some (jobtype j') | None \<Rightarrow> Some ''thread'') = Some ''thread''"
    by simp
  have p: "pool_get (worker_pool ?st) ''thread'' = [] @ ?w # [a_worker 1 (a_job 3 ''thread'' ''123'' True)]"
    by (simp add: pool_get_def a_manager_def)
  have b: "\<forall>p \<in> set []. \<not> matches None (Some ''123'') (Some ''thread'') p"
    by simp
  have m: "matches None (Some ''123'') (Some ''thread'') ?w"
    by (simp add: matches_def a_worker_def a_job_def)
  have m': "matches None (Some ''123'') (Some ''thread'') (a_worker 1 (a_job 3 ''thread'' ''123'' True))"
    by (simp add: matches_def a_worker_def a_job_def)
  from request_interrupt_first_match_only [OF r t p b m] r m' show ?thesis
    by simp
qed

section \<open>Properties of the graceful stop\<close>

lemma wait_cancelled_none_left:
  "wait_cancelled envs q = Some q' \<Longrightarrow> get_all_jobs q' (Some ''cancel-pg-query'') None False = []"
  by (induction envs arbitrary: q) (simp_all split: if_splits)

lemma wait_cancelled_nothing_to_wait_for:
  "get_all_jobs q (Some ''cancel-pg-query'') None False = [] \<Longrightarrow> wait_cancelled envs q = Some q"
  by (cases envs) simp_all

lemma abort_returned:
  "abort envs st = Some (Inr st1) \<Longrightarrow>
   get_all_jobs (queue st1) (Some ''cancel-pg-query'') None False = [] \<and> \<not> looping st1 \<and>
   worker_pool st1 = worker_pool st \<and> stopping_workers st1 = stopping_workers st \<and>
   calls st1 = calls st \<and> next_handle st1 = next_handle st"
  by (auto simp: abort_def dest: wait_cancelled_none_left split: sum.splits option.splits)

lemma abort_nothing_outstanding:
  "get_all_jobs (queue st) (Some ''cancel-pg-query'') None False = [] \<Longrightarrow>
   abort envs st = Some (Inr (st\<lparr>looping := False\<rparr>))"
  by (simp add: abort_def wait_cancelled_nothing_to_wait_for)

lemma cancel_all_unclaimed:
  "\<forall>j \<in> set js. \<not> claimed j \<Longrightarrow> cancel_all js q = force_claimable js q"
  by (induction js arbitrary: q) (simp_all split: sum.splits)

text \<open>
  On a store in which no outstanding cancellation job is claimed, \<open>abort\<close> makes
  every one of them claimable, raises nothing, and returns exactly when the
  environment gets them out of the store; the stop flag is set then, with none
  outstanding.
\<close>

lemma abort_without_claimed_jobs:
  assumes "\<forall>j \<in> set (get_all_jobs (queue st) (Some ''cancel-pg-query'') None False). \<not> claimed j"
  shows "\<exists>q1. cancel_all (get_all_jobs (queue st) (Some ''cancel-pg-query'') None False) (queue st) = Inr q1 \<and>
           (\<forall>r \<in> set (get_all_jobs q1 (Some ''cancel-pg-query'') None False). is_claimable (clock q1) r) \<and>
           abort envs st =
             (case wait_cancelled envs q1 of
                None \<Rightarrow> None
              | Some q' \<Rightarrow> Some (Inr (st\<lparr>queue := q', looping := False\<rparr>)))"
proof -
  let ?js = "get_all_jobs (queue st) (Some ''cancel-pg-query'') None False"
  from force_claimable_snapshot obtain q1 where f: "force_claimable ?js (queue st) = Inr q1"
    by blast
  with assms have c: "cancel_all ?js (queue st) = Inr q1"
    by (simp add: cancel_all_unclaimed)
  have "\<forall>r \<in> set (get_all_jobs q1 (Some ''cancel-pg-query'') None False). is_claimable (clock q1) r"
  proof
    fix r assume r: "r \<in> set (get_all_jobs q1 (Some ''cancel-pg-query'') None False)"
    let ?S = "job_id ` {j \<in> set ?js. \<not> claimed j}"
    let ?f = "\<lambda>r. if job_id r \<in> ?S then r\<lparr>claim_after := clock (queue st), claimed := False\<rparr> else r"
    from force_claimable_result [OF f] have q1: "q1 = (queue st)\<lparr>jobs := map ?f (jobs (queue st))\<rparr>" .
    from r have "r \<in> set (jobs q1)" and jt: "jobtype r = ''cancel-pg-query''"
      by (simp_all add: get_all_jobs_def)
    with q1 obtain r0 where r0: "r0 \<in> set (jobs (queue st))" "r = ?f r0" by auto
    show "is_claimable (clock q1) r"
    proof (cases "job_id r0 \<in> ?S")
      case True
      with r0 q1 show ?thesis by (simp add: is_claimable_def)
    next
      case False
      with r0 have eq: "r = r0" by simp
      with jt r0(1) have "r0 \<in> set ?js" by (simp add: get_all_jobs_def)
      with assms False show ?thesis by blast
    qed
  qed
  with c show ?thesis by (simp add: abort_def)
qed

text \<open>
  Where a graceful stop has returned, a second one, with no cancellation job
  created in between, returns as well, raises nothing, and leaves the store as it
  found it: it claims and releases no job. The stop flag is false after the first
  call and stays false.
\<close>

lemma abort_again_after_return:
  assumes "abort envs st = Some (Inr st1)"
    and "job_id ` set (get_all_jobs (between (queue st1)) (Some ''cancel-pg-query'') None False)
           \<subseteq> job_id ` set (get_all_jobs (queue st1) (Some ''cancel-pg-query'') None False)"
  shows "\<not> looping st1 \<and>
         cancel_all (get_all_jobs (between (queue st1)) (Some ''cancel-pg-query'') None False)
            (between (queue st1)) = Inr (between (queue st1)) \<and>
         abort envs' (st1\<lparr>queue := between (queue st1)\<rparr>) = Some (Inr (st1\<lparr>queue := between (queue st1)\<rparr>))"
proof -
  from abort_returned [OF assms(1)]
  have none: "get_all_jobs (queue st1) (Some ''cancel-pg-query'') None False = []"
    and l: "\<not> looping st1" by simp_all
  from none assms(2)
  have none': "get_all_jobs (between (queue st1)) (Some ''cancel-pg-query'') None False = []"
    by simp
  let ?st = "st1\<lparr>queue := between (queue st1)\<rparr>"
  from none' have "abort envs' ?st = Some (Inr (?st\<lparr>looping := False\<rparr>))"
    by (simp add: abort_nothing_outstanding)
  moreover from l have "?st\<lparr>looping := False\<rparr> = ?st" by simp
  ultimately show ?thesis using l none' by simp
qed

text \<open>
  Claim C3. A store in which an outstanding cancellation job is already claimed:
  \<open>abort\<close> raises \<open>JobClaimedException\<close> at the claim of that job, whatever the
  environment does; the cancellation job after it is not made claimable and the
  stop flag is not touched.
\<close>

theorem abort_raises_on_claimed_cancellation_job:
  "abort envs (a_manager [a_job 1 ''cancel-pg-query'' ''worker-7'' True,
                          a_job 2 ''cancel-pg-query'' ''worker-8'' False] [])
     = Some (Inl JobClaimedException)"
  by (simp add: abort_def a_manager_def a_job_def get_all_jobs_def claim_def)

text \<open>
  Claim C6. The graceful stop invoked twice in succession on a store whose
  outstanding cancellation job is already claimed. The first call raises
  \<open>JobClaimedException\<close> at its first operation on the store, the claim of that
  job, so the state is as it was when the second call starts; the second call
  raises in the same way, and the stop flag is still true.
\<close>

theorem abort_twice_raises_on_claimed_cancellation_job:
  "looping (a_manager [a_job 1 ''cancel-pg-query'' ''worker-7'' True] []) \<and>
   get_all_jobs (queue (a_manager [a_job 1 ''cancel-pg-query'' ''worker-7'' True] []))
       (Some ''cancel-pg-query'') None False = [a_job 1 ''cancel-pg-query'' ''worker-7'' True] \<and>
   claim (queue (a_manager [a_job 1 ''cancel-pg-query'' ''worker-7'' True] []))
       (a_job 1 ''cancel-pg-query'' ''worker-7'' True) = Inl JobClaimedException \<and>
   abort envs (a_manager [a_job 1 ''cancel-pg-query'' ''worker-7'' True] [])
     = Some (Inl JobClaimedException) \<and>
   abort envs' (a_manager [a_job 1 ''cancel-pg-query'' ''worker-7'' True] [])
     = Some (Inl JobClaimedException)"
  by (simp add: abort_def a_manager_def a_job_def get_all_jobs_def claim_def)

section \<open>Properties of the startup\<close>

lemma add_job_fresh:
  "\<not> (\<exists>j \<in> set (jobs q). jobtype j = jt \<and> remote_id j = rid \<and> job_instance j = inst \<and> \<not> claimed j) \<Longrightarrow>
   add_job q jt rid det iv inst =
     Inr (q\<lparr>jobs := jobs q @
            [\<lparr>job_id = next_id q, jobtype = jt, remote_id = rid, job_instance = inst,
              details = det, interval = iv, claim_after = 0, claimed = False\<rparr>],
           next_id := Suc (next_id q)\<rparr>)"
  by (simp add: add_job_def)

lemma add_job_duplicate:
  "\<exists>j \<in> set (jobs q). jobtype j = jt \<and> remote_id j = rid \<and> job_instance j = inst \<and> \<not> claimed j \<Longrightarrow>
   add_job q jt rid det iv inst = Inl JobAlreadyExistsException"
  by (simp add: add_job_def)

text \<open>
  A start on a store in which none of the four maintenance jobs is queued
  unclaimed for the instance: the four calls of \<open>add_job\<close> queue, in this order,
  an \<open>api\<close> job without interval and the jobs \<open>expire-datasets\<close> (every 300 s),
  \<open>datasource-metrics\<close> (every 86400 s) and \<open>clean-temp-files\<close> (every 3600 s),
  each with the instance id as remote id and as instance, and the loop starts
  from the store that holds them, with an empty pool.
\<close>

lemma manager_init_first_start:
  assumes "\<forall>j \<in> set (jobs (validate_datasources q)).
             remote_id j = instance_id \<and> job_instance j = instance_id \<and> \<not> claimed j \<longrightarrow>
             jobtype j \<notin> {''api'', ''expire-datasets'', ''datasource-metrics'', ''clean-temp-files''}"
  shows "manager_init workers validate_datasources ticks instance_id q =
     Inr (loop workers ticks
       \<lparr>queue = (validate_datasources q)
           \<lparr>jobs := jobs (validate_datasources q) @
              [maintenance_job (next_id (validate_datasources q)) ''api'' None instance_id,
               maintenance_job (next_id (validate_datasources q) + 1) ''expire-datasets'' (Some 300) instance_id,
               maintenance_job (next_id (validate_datasources q) + 2) ''datasource-metrics'' (Some 86400) instance_id,
               maintenance_job (next_id (validate_datasources q) + 3) ''clean-temp-files'' (Some 3600) instance_id],
            next_id := next_id (validate_datasources q) + 4\<rparr>,
        worker_pool = [], stopping_workers = [], looping = True, calls = [], next_handle = 0\<rparr>)"
proof -
  let ?q0 = "validate_datasources q"
  let ?j1 = "maintenance_job (next_id ?q0) ''api'' None instance_id"
  let ?j2 = "maintenance_job (next_id ?q0 + 1) ''expire-datasets'' (Some 300) instance_id"
  let ?j3 = "maintenance_job (next_id ?q0 + 2) ''datasource-metrics'' (Some 86400) instance_id"
  let ?j4 = "maintenance_job (next_id ?q0 + 3) ''clean-temp-files'' (Some 3600) instance_id"
  let ?q1 = "?q0\<lparr>jobs := jobs ?q0 @ [?j1], next_id := next_id ?q0 + 1\<rparr>"
  let ?q2 = "?q0\<lparr>jobs := jobs ?q0 @ [?j1, ?j2], next_id := next_id ?q0 + 2\<rparr>"
  let ?q3 = "?q0\<lparr>jobs := jobs ?q0 @ [?j1, ?j2, ?j3], next_id := next_id ?q0 + 3\<rparr>"
  let ?q4 = "?q0\<lparr>jobs := jobs ?q0 @ [?j1, ?j2, ?j3, ?j4], next_id := next_id ?q0 + 4\<rparr>"
  have a1: "add_job ?q0 ''api'' instance_id [] None instance_id = Inr ?q1"
    using assms by (subst add_job_fresh) (auto simp: maintenance_job_def)
  have a2: "add_job ?q1 ''expire-datasets'' instance_id [] (Some 300) instance_id = Inr ?q2"
    using assms by (subst add_job_fresh) (auto simp: maintenance_job_def)
  have a3: "add_job ?q2 ''datasource-metrics'' instance_id [] (Some 86400) instance_id = Inr ?q3"
    using assms by (subst add_job_fresh) (auto simp: maintenance_job_def)
  have a4: "add_job ?q3 ''clean-temp-files'' instance_id [] (Some 3600) instance_id = Inr ?q4"
    using assms by (subst add_job_fresh) (auto simp: maintenance_job_def)
  show ?thesis
    unfolding manager_init_def by (simp only: a1 a2 a3 a4 sum.case)
qed

text \<open>
  Claim C8. A first start on an empty store queues the four maintenance jobs and
  enters the loop. A start on the store this leaves behind raises
  \<open>JobAlreadyExistsException\<close> at the first \<open>add_job\<close>: nothing is queued and the
  loop is not entered. So does a start on a store in which the \<open>api\<close> job is
  claimed and the \<open>expire-datasets\<close> job waits unclaimed for its next turn: a
  second \<open>api\<close> job is queued, and the second \<open>add_job\<close> raises.
\<close>

theorem manager_init_raises_on_restart:
  "manager_init workers id [] ''4cat-1'' \<lparr>jobs = [], clock = 10, next_id = 2\<rparr> =
     Inr \<lparr>queue = \<lparr>jobs = [maintenance_job 2 ''api'' None ''4cat-1'',
               maintenance_job 3 ''expire-datasets'' (Some 300) ''4cat-1'',
               maintenance_job 4 ''datasource-metrics'' (Some 86400) ''4cat-1'',
               maintenance_job 5 ''clean-temp-files'' (Some 3600) ''4cat-1''], clock = 10, next_id = 6\<rparr>,
        worker_pool = [], stopping_workers = [], looping = True, calls = [], next_handle = 0\<rparr> \<and>
   manager_init workers id ticks ''4cat-1''
     \<lparr>jobs = [maintenance_job 2 ''api'' None ''4cat-1'',
               maintenance_job 3 ''expire-datasets'' (Some 300) ''4cat-1'',
               maintenance_job 4 ''datasource-metrics'' (Some 86400) ''4cat-1'',
               maintenance_job 5 ''clean-temp-files'' (Some 3600) ''4cat-1''], clock = 20, next_id = 6\<rparr>
     = Inl JobAlreadyExistsException \<and>
   manager_init workers id ticks ''4cat-1''
     \<lparr>jobs = [(maintenance_job 2 ''api'' None ''4cat-1'')\<lparr>claimed := True\<rparr>,
               (maintenance_job 3 ''expire-datasets'' (Some 300) ''4cat-1'')\<lparr>claim_after := 310\<rparr>],
      clock = 20, next_id = 6\<rparr>
     = Inl JobAlreadyExistsException"
  by (simp add: manager_init_def add_job_def maintenance_job_def)

section \<open>Properties of the board scraper\<close>

lemma required_present:
  "map_of thread ''no'' = Some no \<Longrightarrow> map_of thread ''last_modified'' = Some lm \<Longrightarrow>
   set required_fields - set (map fst thread) = {}"
  by (auto simp: required_fields_def dest!: map_of_SomeD intro: rev_image_eqI)

text \<open>
  Claim C7. When the thread has the required fields and queueing its \<open>thread\<close> job
  fails as a duplicate, \<open>save_thread\<close> raises nothing and leaves the queue as it
  was; it goes on to the database: a thread without a row gets one, and every row
  of the thread gets the scrape time, the thread's modification time and the
  position appended. The result is 1 for a new row and 0 otherwise.
\<close>

theorem save_thread_swallows_duplicate:
  fixes s thread j inst no last_modified
  defines "rows \<equiv>
     map (\<lambda>r. if thread_id r = no
               then r\<lparr>index_positions := index_positions r @ str_int (loop_time s) @ '':'' @
                          str_int (position s) @ '','',
                      timestamp_scraped := loop_time s, timestamp_modified := last_modified\<rparr>
               else r)
       (if \<exists>r \<in> set (db_threads s). thread_id r = no then db_threads s
        else db_threads s @
          [\<lparr>thread_id = no, board = remote_id j, index_positions = [], timestamp_scraped = 0,
            timestamp_modified = 0, timestamp_deleted = 0\<rparr>])"
  assumes "map_of thread ''no'' = Some no" and "map_of thread ''last_modified'' = Some last_modified"
    and "add_job (scraper_queue s) ''thread'' (str_int no) [(''board'', remote_id j)] None inst
           = Inl JobAlreadyExistsException"
  shows "save_thread inst s thread j =
           Inr (s\<lparr>db_threads := rows\<rparr>, if \<exists>r \<in> set (db_threads s). thread_id r = no then 0 else 1) \<and>
         (\<exists>r \<in> set rows. thread_id r = no) \<and>
         (\<forall>r \<in> set rows. thread_id r = no \<longrightarrow>
            timestamp_scraped r = loop_time s \<and> timestamp_modified r = last_modified)"
proof -
  have f: "(find (\<lambda>r. thread_id r = no) (db_threads s) = None) = (\<not> (\<exists>r \<in> set (db_threads s). thread_id r = no))"
    by (auto simp: find_None_iff)
  have q: "s\<lparr>scraper_queue := scraper_queue s, db_threads := rows\<rparr> = s\<lparr>db_threads := rows\<rparr>"
    by simp
  have "save_thread inst s thread j =
           Inr (s\<lparr>db_threads := rows\<rparr>, if \<exists>r \<in> set (db_threads s). thread_id r = no then 0 else 1)"
  proof (cases "\<exists>r \<in> set (db_threads s). thread_id r = no")
    case True
    with f have n: "find (\<lambda>r. thread_id r = no) (db_threads s) \<noteq> None" by simp
    show ?thesis
      unfolding save_thread_def rows_def
      using assms(2-4) True n required_present [OF assms(2,3)]
      by (simp add: Let_def)
  next
    case False
    with f have n: "find (\<lambda>r. thread_id r = no) (db_threads s) = None" by simp
    show ?thesis
      unfolding save_thread_def rows_def
      using assms(2-4) False n required_present [OF assms(2,3)]
      by (simp add: Let_def)
  qed
  moreover have "\<exists>r \<in> set rows. thread_id r = no"
  proof -
    let ?base = "if \<exists>r \<in> set (db_threads s). thread_id r = no then db_threads s
        else db_threads s @
          [\<lparr>thread_id = no, board = remote_id j, index_positions = [], timestamp_scraped = 0,
            timestamp_modified = 0, timestamp_deleted = 0\<rparr>]"
    have "map thread_id rows = map thread_id ?base"
      unfolding rows_def map_map by (rule map_cong) simp_all
    moreover have "no \<in> set (map thread_id ?base)"
      by (cases "\<exists>r \<in> set (db_threads s). thread_id r = no") auto
    ultimately have "no \<in> set (map thread_id rows)" by simp
    then show ?thesis by auto
  qed
  moreover have "\<forall>r \<in> set rows. thread_id r = no \<longrightarrow>
            timestamp_scraped r = loop_time s \<and> timestamp_modified r = last_modified"
    unfolding rows_def by auto
  ultimately show ?thesis by blast
qed

theorem save_thread_swallows_duplicate_witness:
  "save_thread ''x'' (a_scraper [a_job 1 ''thread'' ''123'' False] []) [(''no'', 123), (''last_modified'', 1650)]
      (a_job 9 ''board'' ''pol'' True)
   = Inr ((a_scraper [a_job 1 ''thread'' ''123'' False] [])
           \<lparr>db_threads := [\<lparr>thread_id = 123, board = ''pol'', index_positions = ''1700:3,'',
               timestamp_scraped = 1700, timestamp_modified = 1650, timestamp_deleted = 0\<rparr>]\<rparr>, 1)"
proof -
  have d: "add_job (scraper_queue (a_scraper [a_job 1 ''thread'' ''123'' False] [])) ''thread'' (str_int 123)
      [(''board'', remote_id (a_job 9 ''board'' ''pol'' True))] None ''x'' = Inl JobAlreadyExistsException"
    by (simp add: add_job_def a_scraper_def a_job_def str_int_def str_nat.simps)
  have n: "map_of [(''no'', 123), (''last_modified'', 1650::int)] ''no'' = Some 123"
    and l: "map_of [(''no'', 123), (''last_modified'', 1650::int)] ''last_modified'' = Some 1650"
    by simp_all
  from save_thread_swallows_duplicate [OF n l d] show ?thesis
    by (simp add: a_scraper_def a_job_def str_int_def str_nat.simps)
qed

section \<open>Properties of the reconciliation pass\<close>

lemma remove1_nth_distinct:
  assumes "distinct ws" and "i < length ws"
  shows "remove1 (ws ! i) ws = take i ws @ drop (Suc i) ws"
proof -
  have ws: "ws = take i ws @ ws ! i # drop (Suc i) ws"
    using assms(2) by (rule id_take_nth_drop)
  with assms(1) have "ws ! i \<notin> set (take i ws)"
    by (metis distinct.simps(2) distinct_append disjoint_iff list.set_intros(1)
        set_append Un_iff distinct_take not_distinct_conv_prefix)
  then have "remove1 (ws ! i) (take i ws @ ws ! i # drop (Suc i) ws) = take i ws @ drop (Suc i) ws"
    by (simp add: remove1_append)
  with ws show ?thesis by simp
qed

lemma reconcile_workers_subset:
  "set (fst (reconcile_workers al kn i ws s c)) \<subseteq> set ws"
proof (induction al kn i ws s c rule: reconcile_workers.induct)
  case (1 al kn i ws s c)
  show ?case
  proof (cases "i < length ws")
    case False
    then show ?thesis by (simp add: reconcile_workers.simps)
  next
    case True
    note i = this
    show ?thesis
    proof (cases "al (ws ! i)")
      case False
      with i "1.IH"(1) have "set (fst (reconcile_workers al kn i ws s c)) \<subseteq> set (remove1 (ws ! i) ws)"
        by (subst reconcile_workers.simps) simp
      then show ?thesis using set_remove1_subset by fastforce
    next
      case True
      with i "1.IH"(2,3) show ?thesis
        by (subst reconcile_workers.simps) simp
    qed
  qed
qed

lemma reconcile_workers_length:
  "length (fst (reconcile_workers al kn i ws s c)) \<le> length ws"
proof (induction al kn i ws s c rule: reconcile_workers.induct)
  case (1 al kn i ws s c)
  show ?case
  proof (cases "i < length ws")
    case False
    then show ?thesis by (simp add: reconcile_workers.simps)
  next
    case True
    note i = this
    show ?thesis
    proof (cases "al (ws ! i)")
      case False
      with i "1.IH"(1) have "length (fst (reconcile_workers al kn i ws s c)) \<le> length (remove1 (ws ! i) ws)"
        by (subst reconcile_workers.simps) simp
      then show ?thesis using i by (simp add: length_remove1)
    next
      case True
      with i "1.IH"(2,3) show ?thesis
        by (subst reconcile_workers.simps) simp
    qed
  qed
qed

lemma reconcile_workers_all_alive:
  "\<forall>w \<in> set ws. al w \<Longrightarrow> fst (reconcile_workers al kn i ws s c) = ws"
proof (induction al kn i ws s c rule: reconcile_workers.induct)
  case (1 al kn i ws s c)
  show ?case
  proof (cases "i < length ws")
    case False
    then show ?thesis by (simp add: reconcile_workers.simps)
  next
    case True
    with "1.prems" have "al (ws ! i)" by simp
    with True "1.IH"(2,3) "1.prems" show ?thesis
      by (subst reconcile_workers.simps) simp
  qed
qed


lemma nths_odd_Cons: "nths (x # xs) {k. odd k} = nths xs {k. even k}"
  by (simp add: nths_Cons)

lemma nths_even_Cons: "nths (x # xs) {k. even k} = x # nths xs {k. odd k}"
  by (simp add: nths_Cons)

lemma length_nths_odd_even:
  "length (nths xs {k. odd k}) = length xs div 2 \<and> length (nths xs {k. even k}) = (length xs + 1) div 2"
  by (induction xs) (auto simp: nths_odd_Cons nths_even_Cons)

lemma reconcile_workers_all_dead:
  "distinct ws \<Longrightarrow> \<forall>w \<in> set ws. \<not> al w \<Longrightarrow>
   fst (reconcile_workers al kn i ws s c) = take i ws @ nths (drop i ws) {k. odd k} \<and>
   snd (snd (reconcile_workers al kn i ws s c)) = c @ map Join (nths (drop i ws) {k. even k})"
proof (induction al kn i ws s c rule: reconcile_workers.induct)
  case (1 al kn i ws s c)
  show ?case
  proof (cases "i < length ws")
    case False
    then show ?thesis by (simp add: reconcile_workers.simps)
  next
    case True
    note i = this
    with "1.prems" have dead: "\<not> al (ws ! i)" by simp
    let ?ws2 = "remove1 (ws ! i) ws"
    let ?s2 = "if job_id (job (ws ! i)) \<in> set s then remove1 (job_id (job (ws ! i))) s else s"
    have ws2: "?ws2 = take i ws @ drop (Suc i) ws"
      using "1.prems"(1) i by (rule remove1_nth_distinct)
    have d2: "distinct ?ws2" using "1.prems"(1) by simp
    have a2: "\<forall>w \<in> set ?ws2. \<not> al w" using "1.prems"(2) by (auto dest: notin_set_remove1)
    from "1.IH"(1) [OF i dead d2 a2]
    have ih: "fst (reconcile_workers al kn (Suc i) ?ws2 ?s2 (c @ [Join (ws ! i)])) =
                take (Suc i) ?ws2 @ nths (drop (Suc i) ?ws2) {k. odd k}"
         "snd (snd (reconcile_workers al kn (Suc i) ?ws2 ?s2 (c @ [Join (ws ! i)]))) =
                (c @ [Join (ws ! i)]) @ map Join (nths (drop (Suc i) ?ws2) {k. even k})"
      by simp_all
    have step: "reconcile_workers al kn i ws s c =
                reconcile_workers al kn (Suc i) ?ws2 ?s2 (c @ [Join (ws ! i)])"
      using i dead by (subst reconcile_workers.simps) simp
    have li: "length (take i ws) = i" using i by simp
    have t: "take (Suc i) ?ws2 = take i ws @ take 1 (drop (Suc i) ws)"
      using li by (simp add: ws2)
    have d: "drop (Suc i) ?ws2 = drop 1 (drop (Suc i) ws)"
      using li by (simp add: ws2)
    have di: "drop i ws = ws ! i # drop (Suc i) ws"
      using i by (simp add: Cons_nth_drop_Suc)
    show ?thesis
    proof (cases "drop (Suc i) ws")
      case Nil
      with ih t d di step show ?thesis
        by (simp add: nths_odd_Cons nths_even_Cons)
    next
      case (Cons y ys)
      with ih t d di step show ?thesis
        by (simp add: nths_odd_Cons nths_even_Cons)
    qed
  qed
qed

lemma reconcile_workers_prefix:
  "distinct ws \<Longrightarrow> take i (fst (reconcile_workers al kn i ws s c)) = take i ws"
proof (induction al kn i ws s c rule: reconcile_workers.induct)
  case (1 al kn i ws s c)
  show ?case
  proof (cases "i < length ws")
    case False
    then show ?thesis by (simp add: reconcile_workers.simps)
  next
    case True
    note i = this
    show ?thesis
    proof (cases "al (ws ! i)")
      case False
      let ?ws2 = "remove1 (ws ! i) ws"
      let ?s2 = "if job_id (job (ws ! i)) \<in> set s then remove1 (job_id (job (ws ! i))) s else s"
      have ws2: "?ws2 = take i ws @ drop (Suc i) ws"
        using "1.prems" i by (rule remove1_nth_distinct)
      have d2: "distinct ?ws2" using "1.prems" by simp
      from "1.IH"(1) [OF i False d2]
      have "take (Suc i) (fst (reconcile_workers al kn (Suc i) ?ws2 ?s2 (c @ [Join (ws ! i)]))) =
              take (Suc i) ?ws2" .
      then have "take i (take (Suc i) (fst (reconcile_workers al kn (Suc i) ?ws2 ?s2 (c @ [Join (ws ! i)])))) =
              take i (take (Suc i) ?ws2)" by simp
      then have "take i (fst (reconcile_workers al kn (Suc i) ?ws2 ?s2 (c @ [Join (ws ! i)]))) = take i ?ws2"
        by (simp add: min_def)
      moreover have "take i ?ws2 = take i ws" using i by (simp add: ws2)
      moreover have "reconcile_workers al kn i ws s c =
                reconcile_workers al kn (Suc i) ?ws2 ?s2 (c @ [Join (ws ! i)])"
        using i False by (subst reconcile_workers.simps) simp
      ultimately show ?thesis by simp
    next
      case True
      note alive = this
      show ?thesis
      proof (cases "job_id (job (ws ! i)) \<notin> set kn \<and> job_id (job (ws ! i)) \<notin> set s")
        case True
        from "1.IH"(2) [OF i _ True "1.prems"] alive
        have "take (Suc i) (fst (reconcile_workers al kn (Suc i) ws (s @ [job_id (job (ws ! i))])
                 (c @ [Request_interrupt (ws ! i) None]))) = take (Suc i) ws" by simp
        then have "take i (take (Suc i) (fst (reconcile_workers al kn (Suc i) ws (s @ [job_id (job (ws ! i))])
                 (c @ [Request_interrupt (ws ! i) None])))) = take i (take (Suc i) ws)" by simp
        then have "take i (fst (reconcile_workers al kn (Suc i) ws (s @ [job_id (job (ws ! i))])
                 (c @ [Request_interrupt (ws ! i) None]))) = take i ws"
          by (simp add: min_def)
        moreover have "reconcile_workers al kn i ws s c =
                reconcile_workers al kn (Suc i) ws (s @ [job_id (job (ws ! i))])
                 (c @ [Request_interrupt (ws ! i) None])"
          using i alive True by (subst reconcile_workers.simps) simp
        ultimately show ?thesis by simp
      next
        case False
        from "1.IH"(3) [OF i _ False "1.prems"] alive
        have "take (Suc i) (fst (reconcile_workers al kn (Suc i) ws s c)) = take (Suc i) ws" by simp
        then have "take i (take (Suc i) (fst (reconcile_workers al kn (Suc i) ws s c))) =
                   take i (take (Suc i) ws)" by simp
        then have "take i (fst (reconcile_workers al kn (Suc i) ws s c)) = take i ws"
          by (simp add: min_def)
        moreover have "reconcile_workers al kn i ws s c = reconcile_workers al kn (Suc i) ws s c"
          using i alive False by (subst reconcile_workers.simps) auto
        ultimately show ?thesis by simp
      qed
    qed
  qed
qed


lemma reconcile_workers_calls_kept:
  "set c \<subseteq> set (snd (snd (reconcile_workers al kn i ws s c)))"
proof (induction al kn i ws s c rule: reconcile_workers.induct)
  case (1 al kn i ws s c)
  show ?case
  proof (cases "i < length ws")
    case False
    then show ?thesis by (simp add: reconcile_workers.simps)
  next
    case True
    with "1.IH" show ?thesis
      by (subst reconcile_workers.simps) (auto split: if_splits)
  qed
qed

lemma reconcile_workers_joined:
  "distinct ws \<Longrightarrow> Join w \<in> set (snd (snd (reconcile_workers al kn i ws s c))) \<Longrightarrow>
   Join w \<in> set c \<or> w \<in> set (drop i ws)"
proof (induction al kn i ws s c rule: reconcile_workers.induct)
  case (1 al kn i ws s c)
  show ?case
  proof (cases "i < length ws")
    case False
    with "1.prems" show ?thesis by (simp add: reconcile_workers.simps)
  next
    case True
    note i = this
    have di: "drop i ws = ws ! i # drop (Suc i) ws"
      using i by (simp add: Cons_nth_drop_Suc)
    show ?thesis
    proof (cases "al (ws ! i)")
      case False
      let ?ws2 = "remove1 (ws ! i) ws"
      let ?s2 = "if job_id (job (ws ! i)) \<in> set s then remove1 (job_id (job (ws ! i))) s else s"
      have ws2: "?ws2 = take i ws @ drop (Suc i) ws"
        using "1.prems"(1) i by (rule remove1_nth_distinct)
      have d2: "distinct ?ws2" using "1.prems"(1) by simp
      have step: "reconcile_workers al kn i ws s c =
                reconcile_workers al kn (Suc i) ?ws2 ?s2 (c @ [Join (ws ! i)])"
        using i False by (subst reconcile_workers.simps) simp
      have li: "length (take i ws) = i" using i by simp
      have d: "drop (Suc i) ?ws2 = drop 1 (drop (Suc i) ws)"
        using li by (simp add: ws2)
      from "1.IH"(1) [OF i False d2] "1.prems"(2) step
      have "Join w \<in> set (c @ [Join (ws ! i)]) \<or> w \<in> set (drop (Suc i) ?ws2)" by simp
      moreover have "set (drop (Suc (Suc i)) ws) \<subseteq> set (drop (Suc i) ws)"
        by (rule set_drop_subset_set_drop) simp
      ultimately show ?thesis
        using di by (auto simp: d)
    next
      case True
      note alive = this
      show ?thesis
      proof (cases "job_id (job (ws ! i)) \<notin> set kn \<and> job_id (job (ws ! i)) \<notin> set s")
        case True
        have step: "reconcile_workers al kn i ws s c =
                reconcile_workers al kn (Suc i) ws (s @ [job_id (job (ws ! i))])
                 (c @ [Request_interrupt (ws ! i) None])"
          using i alive True by (subst reconcile_workers.simps) simp
        from "1.IH"(2) [OF i _ True "1.prems"(1)] alive "1.prems"(2) step
        have "Join w \<in> set (c @ [Request_interrupt (ws ! i) None]) \<or> w \<in> set (drop (Suc i) ws)"
          by simp
        then show ?thesis using di by auto
      next
        case False
        have step: "reconcile_workers al kn i ws s c = reconcile_workers al kn (Suc i) ws s c"
          using i alive False by (subst reconcile_workers.simps) auto
        from "1.IH"(3) [OF i _ False "1.prems"(1)] alive "1.prems"(2) step
        have "Join w \<in> set c \<or> w \<in> set (drop (Suc i) ws)" by simp
        then show ?thesis using di by auto
      qed
    qed
  qed
qed

lemma reconcile_workers_skip_alive:
  "\<forall>w \<in> set pre. al w \<Longrightarrow>
   \<exists>s1 c1. reconcile_workers al kn (length done) (done @ pre @ tail) s c =
            reconcile_workers al kn (length done + length pre) (done @ pre @ tail) s1 c1 \<and>
           set s \<subseteq> set s1 \<and> (\<forall>w. Join w \<in> set c1 \<longrightarrow> Join w \<in> set c)"
proof (induction pre arbitrary: "done" s c)
  case Nil
  then show ?case by auto
next
  case (Cons p pre)
  let ?ws = "done @ (p # pre) @ tail"
  have i: "length done < length ?ws" by simp
  have p: "?ws ! length done = p" by (simp add: nth_append)
  from Cons.prems have alive: "al p" and rest: "\<forall>w \<in> set pre. al w" by simp_all
  have eq: "(done @ [p]) @ pre @ tail = ?ws" by simp
  show ?case
  proof (cases "job_id (job p) \<notin> set kn \<and> job_id (job p) \<notin> set s")
    case True
    have step: "reconcile_workers al kn (length done) ?ws s c =
                reconcile_workers al kn (Suc (length done)) ?ws (s @ [job_id (job p)])
                 (c @ [Request_interrupt p None])"
      using i alive True p by (subst reconcile_workers.simps) simp
    from Cons.IH [OF rest, of "done @ [p]" "s @ [job_id (job p)]" "c @ [Request_interrupt p None]"]
    obtain s1 c1 where
      "reconcile_workers al kn (length (done @ [p])) ((done @ [p]) @ pre @ tail) (s @ [job_id (job p)])
           (c @ [Request_interrupt p None]) =
       reconcile_workers al kn (length (done @ [p]) + length pre) ((done @ [p]) @ pre @ tail) s1 c1"
      "set (s @ [job_id (job p)]) \<subseteq> set s1"
      "\<forall>w. Join w \<in> set c1 \<longrightarrow> Join w \<in> set (c @ [Request_interrupt p None])"
      by blast
    with step eq show ?thesis
      by (intro exI [of _ s1] exI [of _ c1]) auto
  next
    case False
    have step: "reconcile_workers al kn (length done) ?ws s c =
                reconcile_workers al kn (Suc (length done)) ?ws s c"
      using i alive False p by (subst reconcile_workers.simps) auto
    from Cons.IH [OF rest, of "done @ [p]" s c]
    obtain s1 c1 where
      "reconcile_workers al kn (length (done @ [p])) ((done @ [p]) @ pre @ tail) s c =
       reconcile_workers al kn (length (done @ [p]) + length pre) ((done @ [p]) @ pre @ tail) s1 c1"
      "set s \<subseteq> set s1" "\<forall>w. Join w \<in> set c1 \<longrightarrow> Join w \<in> set c"
      by blast
    with step eq show ?thesis
      by (intro exI [of _ s1] exI [of _ c1]) auto
  qed
qed

lemma survivors_subset: "set (survivors al ws) \<subseteq> set ws"
  by (induction al ws rule: survivors.induct) auto

lemma distinct_survivors: "distinct ws \<Longrightarrow> distinct (survivors al ws)"
proof (induction al ws rule: survivors.induct)
  case (1 al)
  then show ?case by simp
next
  case (2 al w)
  then show ?case by simp
next
  case (3 al w y zs)
  with survivors_subset [of al "y # zs"] survivors_subset [of al zs] show ?case
    by (cases "al w") auto
qed

lemma reconcile_workers_survivors:
  "distinct (kept @ rem) \<Longrightarrow>
   fst (reconcile_workers al kn (length kept) (kept @ rem) s c) = kept @ survivors al rem"
proof (induction al rem arbitrary: kept s c rule: survivors.induct)
  case (1 al)
  then show ?case by (simp add: reconcile_workers.simps)
next
  case (2 al w)
  have at: "(kept @ [w]) ! length kept = w" by simp
  show ?case
  proof (cases "al w")
    case True
    then have "fst (reconcile_workers al kn (length kept) (kept @ [w]) s c) = kept @ [w]"
      using at
      by (subst reconcile_workers.simps) (simp add: reconcile_workers.simps [of _ _ "Suc (length kept)"])
    with True show ?thesis by simp
  next
    case False
    from "2.prems" have "remove1 w (kept @ [w]) = kept" by (simp add: remove1_append)
    with False have "fst (reconcile_workers al kn (length kept) (kept @ [w]) s c) = kept"
      using at
      by (subst reconcile_workers.simps) (simp add: reconcile_workers.simps [of _ _ "Suc (length kept)"])
    with False show ?thesis by simp
  qed
next
  case (3 al w y zs)
  let ?ws = "kept @ w # y # zs"
  have i: "length kept < length ?ws" by simp
  have at: "?ws ! length kept = w" by simp
  show ?case
  proof (cases "al w")
    case True
    from "3.prems" have d: "distinct ((kept @ [w]) @ y # zs)" by simp
    have "\<exists>s' c'. reconcile_workers al kn (length kept) ?ws s c =
        reconcile_workers al kn (Suc (length kept)) ?ws s' c'"
      using i at True by (subst reconcile_workers.simps) auto
    then obtain s' c' where "reconcile_workers al kn (length kept) ?ws s c =
        reconcile_workers al kn (length (kept @ [w])) ((kept @ [w]) @ y # zs) s' c'" by auto
    with "3.IH"(1) [OF True d, of s' c'] True show ?thesis by simp
  next
    case False
    from "3.prems" have rm: "remove1 w ?ws = kept @ y # zs" by (simp add: remove1_append)
    from "3.prems" have d: "distinct ((kept @ [y]) @ zs)" by auto
    have "\<exists>s' c'. reconcile_workers al kn (length kept) ?ws s c =
        reconcile_workers al kn (Suc (length kept)) (kept @ y # zs) s' c'"
      using i at False rm by (subst reconcile_workers.simps) auto
    then obtain s' c' where "reconcile_workers al kn (length kept) ?ws s c =
        reconcile_workers al kn (length (kept @ [y])) ((kept @ [y]) @ zs) s' c'" by auto
    with "3.IH"(2) [OF False d, of s' c'] False show ?thesis by simp
  qed
qed


lemma reached_after_live: "al w \<Longrightarrow> reached al (w # rest) (Suc k) = reached al rest k"
  by (induction k) simp_all

lemma reached_after_removed:
  "\<not> al w \<Longrightarrow> reached al (w # y # zs) (Suc (Suc k)) = reached al zs k"
  by (induction k) simp_all

lemma reached_live_prefix: "\<forall>j < k. al (ws ! j) \<Longrightarrow> reached al ws k"
  by (induction k) simp_all

lemma survivors_reached:
  "distinct ws \<Longrightarrow> k < length ws \<Longrightarrow>
   (ws ! k \<in> set (survivors al ws) \<longleftrightarrow> al (ws ! k) \<or> \<not> reached al ws k)"
proof (induction al ws arbitrary: k rule: survivors.induct)
  case (1 al)
  then show ?case by simp
next
  case (2 al w)
  then show ?case by simp
next
  case (3 al w y zs)
  show ?case
  proof (cases "al w")
    case True
    show ?thesis
    proof (cases k)
      case 0
      with True show ?thesis by simp
    next
      case (Suc j)
      with "3.prems" have j: "j < length (y # zs)" and d: "distinct (y # zs)" by simp_all
      from "3.prems" Suc have "(w # y # zs) ! k \<noteq> w"
        by (metis distinct.simps(2) j nth_Cons_Suc nth_mem)
      with "3.IH"(1) [OF True d j] True Suc show ?thesis
        by (simp add: reached_after_live del: reached.simps)
    qed
  next
    case False
    note dead = this
    from "3.prems"(1) have wy: "w \<noteq> y" "w \<notin> set zs" "y \<notin> set zs" and dz: "distinct zs" by auto
    have sub: "set (survivors al zs) \<subseteq> set zs" by (rule survivors_subset)
    show ?thesis
    proof (cases k)
      case 0
      with dead wy sub show ?thesis by auto
    next
      case (Suc j)
      show ?thesis
      proof (cases j)
        case 0
        with Suc dead show ?thesis by simp
      next
        case (Suc i)
        with \<open>k = Suc j\<close> "3.prems"(2) have i: "i < length zs" by simp
        then have "zs ! i \<in> set zs" by simp
        with wy have "zs ! i \<noteq> y" by auto
        with "3.IH"(2) [OF dead dz i] dead Suc \<open>k = Suc j\<close> show ?thesis
          by (simp add: reached_after_removed del: reached.simps)
      qed
    qed
  qed
qed

lemma reconcile_workers_joined_iff:
  "distinct ws \<Longrightarrow>
   (Join w \<in> set (snd (snd (reconcile_workers al kn i ws s c))) \<longleftrightarrow>
    Join w \<in> set c \<or> (w \<in> set ws \<and> w \<notin> set (fst (reconcile_workers al kn i ws s c))))"
proof (induction al kn i ws s c rule: reconcile_workers.induct)
  case (1 al kn i ws s c)
  show ?case
  proof (cases "i < length ws")
    case False
    then show ?thesis by (simp add: reconcile_workers.simps)
  next
    case True
    note i = this
    show ?thesis
    proof (cases "al (ws ! i)")
      case False
      let ?x = "ws ! i"
      let ?ws2 = "remove1 ?x ws"
      let ?s2 = "if job_id (job ?x) \<in> set s then remove1 (job_id (job ?x)) s else s"
      have step: "reconcile_workers al kn i ws s c =
                reconcile_workers al kn (Suc i) ?ws2 ?s2 (c @ [Join ?x])"
        using i False by (subst reconcile_workers.simps) simp
      have d2: "distinct ?ws2" using "1.prems" by simp
      have x: "?x \<in> set ws" "?x \<notin> set ?ws2" using i "1.prems" by simp_all
      have sub: "set (fst (reconcile_workers al kn (Suc i) ?ws2 ?s2 (c @ [Join ?x]))) \<subseteq> set ?ws2"
        by (rule reconcile_workers_subset)
      have other: "w \<noteq> ?x \<Longrightarrow> (w \<in> set ?ws2 \<longleftrightarrow> w \<in> set ws)"
        by simp
      from "1.IH"(1) [OF i False d2] x sub other show ?thesis
        unfolding step by (cases "w = ?x") auto
    next
      case True
      note alive = this
      show ?thesis
      proof (cases "job_id (job (ws ! i)) \<notin> set kn \<and> job_id (job (ws ! i)) \<notin> set s")
        case True
        have step: "reconcile_workers al kn i ws s c =
                reconcile_workers al kn (Suc i) ws (s @ [job_id (job (ws ! i))])
                 (c @ [Request_interrupt (ws ! i) None])"
          using i alive True by (subst reconcile_workers.simps) simp
        from "1.IH"(2) [OF i _ True "1.prems"] alive show ?thesis
          unfolding step by simp
      next
        case False
        have step: "reconcile_workers al kn i ws s c = reconcile_workers al kn (Suc i) ws s c"
          using i alive False by (subst reconcile_workers.simps) auto
        from "1.IH"(3) [OF i _ False "1.prems"] alive show ?thesis
          unfolding step by simp
      qed
    qed
  qed
qed

lemma filter_live_survivors: "filter al (survivors al ws) = filter al ws"
  by (induction al ws rule: survivors.induct) auto

lemma survivors_all_live: "\<forall>w \<in> set ws. al w \<Longrightarrow> survivors al ws = ws"
  by (induction al ws rule: survivors.induct) auto

lemma non_live_survivors:
  "length (filter (\<lambda>w. \<not> al w) (survivors al ws)) \<le> length (filter (\<lambda>w. \<not> al w) ws) - 1"
  by (induction al ws rule: survivors.induct) auto

lemma survivors_passes:
  "length (filter (\<lambda>w. \<not> al w) ws) \<le> n \<Longrightarrow> (survivors al ^^ n) ws = filter al ws"
proof (induction n arbitrary: ws)
  case 0
  then have "\<forall>w \<in> set ws. al w" by (auto simp: filter_empty_conv)
  then show ?case by (simp add: filter_id_conv [THEN iffD2])
next
  case (Suc n)
  from non_live_survivors [of al ws] Suc.prems
  have "length (filter (\<lambda>w. \<not> al w) (survivors al ws)) \<le> n" by simp
  from Suc.IH [OF this] show ?case
    by (simp add: funpow_swap1 filter_live_survivors)
qed

lemma reconcile_workers_passes:
  "distinct ws \<Longrightarrow>
   fst (((\<lambda>(ws, s, c). reconcile_workers al kn 0 ws s c) ^^ n) (ws, s, c)) = (survivors al ^^ n) ws \<and>
   distinct ((survivors al ^^ n) ws)"
proof (induction n)
  case 0
  then show ?case by simp
next
  case (Suc n)
  obtain ws' s' c' where p: "((\<lambda>(ws, s, c). reconcile_workers al kn 0 ws s c) ^^ n) (ws, s, c) = (ws', s', c')"
    by (cases "((\<lambda>(ws, s, c). reconcile_workers al kn 0 ws s c) ^^ n) (ws, s, c)")
  with Suc have ws': "ws' = (survivors al ^^ n) ws" and d: "distinct ws'" by simp_all
  from reconcile_workers_survivors [of "[]" ws' al kn s' c'] d
  have "fst (reconcile_workers al kn 0 ws' s' c') = survivors al ws'" by simp
  with p ws' d show ?case by (simp add: distinct_survivors)
qed


text \<open>
  Claim C10, as the code has it. The pass over the worker list of one job type,
  the workers being distinct objects. An entry is joined and removed exactly if
  the iterator reads it and it is non-live, and the iterator does not read the
  entry after a removed one. So of two consecutive non-live entries exactly one
  is joined and removed: the first if the iterator reads it, as it does when
  every entry before it is live, and otherwise the second; the other stays in the
  list. When all \<open>n\<close> entries are non-live the pass joins and removes those at
  the even positions 0, 2, ... and leaves the \<open>n div 2\<close> at the odd ones. Passes
  repeated with the same answers, as many as there were non-live entries, leave
  exactly the live entries.
\<close>

theorem reconcile_workers_removes_reached_non_live:
  fixes al kn ws s c
  defines "R \<equiv> reconcile_workers al kn 0 ws s c"
  assumes "distinct ws"
  shows "(\<forall>k < length ws.
            (ws ! k \<in> set (fst R) \<longleftrightarrow> al (ws ! k) \<or> \<not> reached al ws k) \<and>
            (Join (ws ! k) \<in> set (snd (snd R)) \<longleftrightarrow>
               Join (ws ! k) \<in> set c \<or> (reached al ws k \<and> \<not> al (ws ! k)))) \<and>
         (\<forall>k. Suc k < length ws \<and> \<not> al (ws ! k) \<and> \<not> al (ws ! Suc k) \<longrightarrow>
            (if reached al ws k
             then ws ! k \<notin> set (fst R) \<and> ws ! Suc k \<in> set (fst R)
             else ws ! k \<in> set (fst R) \<and> ws ! Suc k \<notin> set (fst R))) \<and>
         (\<forall>k. (\<forall>j < k. al (ws ! j)) \<longrightarrow> reached al ws k) \<and>
         ((\<forall>w \<in> set ws. \<not> al w) \<longrightarrow>
            fst R = nths ws {k. odd k} \<and>
            snd (snd R) = c @ map Join (nths ws {k. even k}) \<and>
            length (fst R) = length ws div 2) \<and>
         (\<forall>n \<ge> length (filter (\<lambda>w. \<not> al w) ws).
            fst (((\<lambda>(ws, s, c). reconcile_workers al kn 0 ws s c) ^^ n) (ws, s, c)) = filter al ws)"
proof -
  have fr: "fst R = survivors al ws"
    unfolding R_def using reconcile_workers_survivors [of "[]" ws al kn s c] assms(2) by simp
  have mem: "ws ! k \<in> set (fst R) \<longleftrightarrow> al (ws ! k) \<or> \<not> reached al ws k" if "k < length ws" for k
    unfolding fr using assms(2) that by (rule survivors_reached)
  have joined: "Join (ws ! k) \<in> set (snd (snd R)) \<longleftrightarrow>
               Join (ws ! k) \<in> set c \<or> (reached al ws k \<and> \<not> al (ws ! k))" if "k < length ws" for k
  proof -
    from that have "ws ! k \<in> set ws" by simp
    with reconcile_workers_joined_iff [OF assms(2), of "ws ! k" al kn 0 s c] mem [OF that]
    show ?thesis unfolding R_def by blast
  qed
  have pair: "if reached al ws k
             then ws ! k \<notin> set (fst R) \<and> ws ! Suc k \<in> set (fst R)
             else ws ! k \<in> set (fst R) \<and> ws ! Suc k \<notin> set (fst R)"
    if "Suc k < length ws \<and> \<not> al (ws ! k) \<and> \<not> al (ws ! Suc k)" for k
  proof -
    from that have k: "k < length ws" and k1: "Suc k < length ws" by simp_all
    from mem [OF k] mem [OF k1] that show ?thesis by simp
  qed
  have dead: "fst R = nths ws {k. odd k} \<and>
            snd (snd R) = c @ map Join (nths ws {k. even k}) \<and>
            length (fst R) = length ws div 2" if "\<forall>w \<in> set ws. \<not> al w"
  proof -
    from reconcile_workers_all_dead [OF assms(2) that, of kn 0 s c]
    have "fst R = nths ws {k. odd k}" "snd (snd R) = c @ map Join (nths ws {k. even k})"
      unfolding R_def by simp_all
    then show ?thesis by (simp add: length_nths_odd_even)
  qed
  have later: "fst (((\<lambda>(ws, s, c). reconcile_workers al kn 0 ws s c) ^^ n) (ws, s, c)) = filter al ws"
    if "length (filter (\<lambda>w. \<not> al w) ws) \<le> n" for n
    using reconcile_workers_passes [OF assms(2), where al = al and kn = kn and n = n and s = s and c = c]
      survivors_passes [OF that]
    by simp
  from mem joined pair dead later reached_live_prefix [where al = al and ws = ws] show ?thesis
    by blast
qed

theorem reconcile_workers_removes_reached_non_live_witness:
  "a_worker 2 (a_job 3 ''board'' ''c'' True) \<notin> set (fst (reconcile_workers (\<lambda>w. handle w = 1) [] 0
      [a_worker 0 (a_job 1 ''board'' ''a'' True), a_worker 1 (a_job 2 ''board'' ''b'' True),
       a_worker 2 (a_job 3 ''board'' ''c'' True), a_worker 3 (a_job 4 ''board'' ''d'' True)] [] [])) \<and>
   a_worker 3 (a_job 4 ''board'' ''d'' True) \<in> set (fst (reconcile_workers (\<lambda>w. handle w = 1) [] 0
      [a_worker 0 (a_job 1 ''board'' ''a'' True), a_worker 1 (a_job 2 ''board'' ''b'' True),
       a_worker 2 (a_job 3 ''board'' ''c'' True), a_worker 3 (a_job 4 ''board'' ''d'' True)] [] [])) \<and>
   fst (((\<lambda>(ws, s, c). reconcile_workers (\<lambda>w. handle w = 1) [] 0 ws s c) ^^ 3)
      ([a_worker 0 (a_job 1 ''board'' ''a'' True), a_worker 1 (a_job 2 ''board'' ''b'' True),
        a_worker 2 (a_job 3 ''board'' ''c'' True), a_worker 3 (a_job 4 ''board'' ''d'' True)], [], []))
   = [a_worker 1 (a_job 2 ''board'' ''b'' True)]"
proof -
  let ?w0 = "a_worker 0 (a_job 1 ''board'' ''a'' True)"
  let ?w1 = "a_worker 1 (a_job 2 ''board'' ''b'' True)"
  let ?w2 = "a_worker 2 (a_job 3 ''board'' ''c'' True)"
  let ?w3 = "a_worker 3 (a_job 4 ''board'' ''d'' True)"
  let ?ws = "[?w0, ?w1, ?w2, ?w3]"
  let ?al = "\<lambda>w. handle w = 1"
  have d: "distinct ?ws" by (simp add: a_worker_def)
  note T = reconcile_workers_removes_reached_non_live
     [where al = ?al and kn = "[]" and s = "[]" and c = "[]", OF d]
  have p: "Suc (Suc (Suc 0)) < length ?ws \<and> \<not> ?al (?ws ! Suc (Suc 0)) \<and> \<not> ?al (?ws ! Suc (Suc (Suc 0)))"
    by (simp add: a_worker_def)
  have r: "reached ?al ?ws (Suc (Suc 0))" by (simp add: a_worker_def)
  from T [THEN conjunct2, THEN conjunct1, rule_format, OF p] r
  have one: "?w2 \<notin> set (fst (reconcile_workers ?al [] 0 ?ws [] []))"
    and two: "?w3 \<in> set (fst (reconcile_workers ?al [] 0 ?ws [] []))"
    by simp_all
  have n: "length (filter (\<lambda>w. \<not> ?al w) ?ws) \<le> 3" by (simp add: a_worker_def)
  from T [THEN conjunct2, THEN conjunct2, THEN conjunct2, THEN conjunct2, rule_format, OF n]
  have "fst (((\<lambda>(ws, s, c). reconcile_workers ?al [] 0 ws s c) ^^ 3) (?ws, [], [])) = filter ?al ?ws" .
  moreover have "filter ?al ?ws = [?w1]" by (simp add: a_worker_def)
  ultimately show ?thesis using one two by simp
qed

text \<open>
  Three non-live entries: the pass removes the first and the third. Of the
  consecutive pair of the second and the third, the first stays and the second is
  joined and removed.
\<close>

theorem reconcile_workers_second_of_pair_counterexample:
  "fst (reconcile_workers (\<lambda>w. False) [] 0
      [a_worker 0 (a_job 1 ''board'' ''a'' True), a_worker 1 (a_job 2 ''board'' ''b'' True),
       a_worker 2 (a_job 3 ''board'' ''c'' True)] [] [])
   = [a_worker 1 (a_job 2 ''board'' ''b'' True)] \<and>
   snd (snd (reconcile_workers (\<lambda>w. False) [] 0
      [a_worker 0 (a_job 1 ''board'' ''a'' True), a_worker 1 (a_job 2 ''board'' ''b'' True),
       a_worker 2 (a_job 3 ''board'' ''c'' True)] [] []))
   = [Join (a_worker 0 (a_job 1 ''board'' ''a'' True)), Join (a_worker 2 (a_job 3 ''board'' ''c'' True))]"
  by (simp add: reconcile_workers.simps a_worker_def a_job_def)

section \<open>Properties of the assignment loop and the tick\<close>

lemma pool_get_pool_set:
  "pool_get (pool_set pool jt ws) jt' = (if jt' = jt then ws else pool_get pool jt')"
  by (induction pool jt ws rule: pool_set.induct) (auto simp: pool_get_def)

lemma keys_pool_set:
  "set (map fst (pool_set pool jt ws)) = insert jt (set (map fst pool))"
  by (induction pool jt ws rule: pool_set.induct) auto

lemma pool_get_absent: "jt \<notin> set (map fst pool) \<Longrightarrow> pool_get pool jt = []"
  by (simp add: pool_get_def map_of_eq_None_iff [THEN iffD2])

text \<open>What one pass over the job types does to the list of a job type and to the rest of the state.\<close>

lemma reconcile_pool_frame:
  "queue (reconcile_pool al kn keys st) = queue st \<and>
   looping (reconcile_pool al kn keys st) = looping st \<and>
   next_handle (reconcile_pool al kn keys st) = next_handle st"
proof (induction keys arbitrary: st)
  case Nil
  then show ?case by simp
next
  case (Cons k keys)
  obtain ws s c where r: "reconcile_workers al kn 0 (pool_get (worker_pool st) k) (stopping_workers st) (calls st)
      = (ws, s, c)" by (cases "reconcile_workers al kn 0 (pool_get (worker_pool st) k) (stopping_workers st) (calls st)")
  show ?case
    using Cons.IH [of "st\<lparr>worker_pool := pool_set (worker_pool st) k ws, stopping_workers := s, calls := c\<rparr>"]
    by (simp add: r)
qed

lemma reconcile_pool_shrinks:
  "set (pool_get (worker_pool (reconcile_pool al kn keys st)) jt) \<subseteq> set (pool_get (worker_pool st) jt) \<and>
   length (pool_get (worker_pool (reconcile_pool al kn keys st)) jt) \<le> length (pool_get (worker_pool st) jt)"
proof (induction keys arbitrary: st)
  case Nil
  then show ?case by simp
next
  case (Cons k keys)
  obtain ws s c where r: "reconcile_workers al kn 0 (pool_get (worker_pool st) k) (stopping_workers st) (calls st)
      = (ws, s, c)" by (cases "reconcile_workers al kn 0 (pool_get (worker_pool st) k) (stopping_workers st) (calls st)")
  let ?st1 = "st\<lparr>worker_pool := pool_set (worker_pool st) k ws, stopping_workers := s, calls := c\<rparr>"
  have "set ws \<subseteq> set (pool_get (worker_pool st) k)" "length ws \<le> length (pool_get (worker_pool st) k)"
    using reconcile_workers_subset [of al kn 0 "pool_get (worker_pool st) k" "stopping_workers st" "calls st"]
      reconcile_workers_length [of al kn 0 "pool_get (worker_pool st) k" "stopping_workers st" "calls st"]
    by (simp_all add: r)
  then have "set (pool_get (worker_pool ?st1) jt) \<subseteq> set (pool_get (worker_pool st) jt)"
    "length (pool_get (worker_pool ?st1) jt) \<le> length (pool_get (worker_pool st) jt)"
    by (simp_all add: pool_get_pool_set)
  with Cons.IH [of ?st1] show ?case
    by (simp add: r) (meson order_trans)
qed

lemma reconcile_pool_all_alive:
  "\<forall>w \<in> set (pool_get (worker_pool st) jt). al w \<Longrightarrow>
   pool_get (worker_pool (reconcile_pool al kn keys st)) jt = pool_get (worker_pool st) jt"
proof (induction keys arbitrary: st)
  case Nil
  then show ?case by simp
next
  case (Cons k keys)
  obtain ws s c where r: "reconcile_workers al kn 0 (pool_get (worker_pool st) k) (stopping_workers st) (calls st)
      = (ws, s, c)" by (cases "reconcile_workers al kn 0 (pool_get (worker_pool st) k) (stopping_workers st) (calls st)")
  let ?st1 = "st\<lparr>worker_pool := pool_set (worker_pool st) k ws, stopping_workers := s, calls := c\<rparr>"
  have same: "pool_get (worker_pool ?st1) jt = pool_get (worker_pool st) jt"
  proof (cases "jt = k")
    case True
    with Cons.prems have "ws = pool_get (worker_pool st) k"
      using reconcile_workers_all_alive [of "pool_get (worker_pool st) k" al kn 0 "stopping_workers st" "calls st"]
      by (simp add: r)
    with True show ?thesis by (simp add: pool_get_pool_set)
  next
    case False
    then show ?thesis by (simp add: pool_get_pool_set)
  qed
  with Cons.prems have "\<forall>w \<in> set (pool_get (worker_pool ?st1) jt). al w" by simp
  from Cons.IH [OF this] same show ?case by (simp add: r)
qed

lemma assign_job_spawns:
  assumes "spawns workers st j"
  shows "claim (queue st) j = Inr (queue (assign_job workers st j)) \<and>
         (\<forall>jt. pool_get (worker_pool (assign_job workers st j)) jt =
          (if jt = jobtype j
           then pool_get (worker_pool st) jt @ [\<lparr>handle = next_handle st, job = j\<lparr>claimed := True\<rparr>\<rparr>]
           else pool_get (worker_pool st) jt)) \<and>
         calls (assign_job workers st j) =
           calls st @ [Start \<lparr>handle = next_handle st, job = j\<lparr>claimed := True\<rparr>\<rparr>] \<and>
         next_handle (assign_job workers st j) = Suc (next_handle st) \<and>
         stopping_workers (assign_job workers st j) = stopping_workers st \<and>
         looping (assign_job workers st j) = looping st"
proof -
  from assms obtain wc where wc: "workers (jobtype j) = Some wc"
    and lt: "int (length (pool_get (worker_pool st) (jobtype j))) < max_workers wc"
    and cl: "is_claimable (clock (queue st)) j"
    and ex: "\<exists>r \<in> set (jobs (queue st)). job_id r = job_id j \<and> \<not> claimed r"
    by (auto simp: spawns_def split: option.splits)
  from ex obtain q' where q': "claim (queue st) j = Inr q'"
    by (auto simp: claim_def)
  show ?thesis
  proof (cases "jobtype j \<in> set (map fst (worker_pool st))")
    case True
    with wc lt cl q' have "assign_job workers st j =
       st\<lparr>queue := q',
          worker_pool := pool_set (worker_pool st) (jobtype j)
             (pool_get (worker_pool st) (jobtype j) @ [\<lparr>handle = next_handle st, job = j\<lparr>claimed := True\<rparr>\<rparr>]),
          calls := calls st @ [Start \<lparr>handle = next_handle st, job = j\<lparr>claimed := True\<rparr>\<rparr>],
          next_handle := Suc (next_handle st)\<rparr>"
      by (simp add: assign_job_def Let_def)
    then show ?thesis by (simp add: q' pool_get_pool_set)
  next
    case False
    then have e: "pool_get (worker_pool st) (jobtype j) = []"
      by (rule pool_get_absent)
    from False wc lt cl q' e have "assign_job workers st j =
       st\<lparr>queue := q',
          worker_pool := pool_set (pool_set (worker_pool st) (jobtype j) []) (jobtype j)
             [\<lparr>handle = next_handle st, job = j\<lparr>claimed := True\<rparr>\<rparr>],
          calls := calls st @ [Start \<lparr>handle = next_handle st, job = j\<lparr>claimed := True\<rparr>\<rparr>],
          next_handle := Suc (next_handle st)\<rparr>"
      by (simp add: assign_job_def Let_def pool_get_pool_set)
    then show ?thesis using e by (simp add: q' pool_get_pool_set)
  qed
qed

lemma assign_job_passes:
  assumes "\<not> spawns workers st j"
  shows "queue (assign_job workers st j) = queue st \<and>
         (\<forall>jt. pool_get (worker_pool (assign_job workers st j)) jt = pool_get (worker_pool st) jt) \<and>
         calls (assign_job workers st j) = calls st \<and>
         next_handle (assign_job workers st j) = next_handle st \<and>
         stopping_workers (assign_job workers st j) = stopping_workers st \<and>
         looping (assign_job workers st j) = looping st"
  using assms
  by (auto simp: assign_job_def spawns_def Let_def claim_def pool_get_pool_set pool_get_absent
      split: option.splits)


lemma within_capacityD:
  "within_capacity workers pool \<Longrightarrow>
   (case workers jt of None \<Rightarrow> pool_get pool jt = []
    | Some wc \<Rightarrow> int (length (pool_get pool jt)) \<le> max_workers wc)"
  by (simp add: within_capacity_def)

lemma within_capacity_shorter:
  assumes "within_capacity workers pool"
    and "\<And>jt. length (pool_get pool' jt) \<le> length (pool_get pool jt)"
  shows "within_capacity workers pool'"
  unfolding within_capacity_def
proof
  fix jt
  from within_capacityD [OF assms(1), of jt] assms(2) [of jt]
  show "case workers jt of None \<Rightarrow> pool_get pool' jt = []
        | Some wc \<Rightarrow> int (length (pool_get pool' jt)) \<le> max_workers wc"
    by (cases "workers jt") auto
qed

lemma spawns_or_passes:
  "calls (assign_job workers st j) \<noteq> calls st \<or> queue (assign_job workers st j) \<noteq> queue st \<or>
   (\<exists>jt. pool_get (worker_pool (assign_job workers st j)) jt \<noteq> pool_get (worker_pool st) jt) \<Longrightarrow>
   spawns workers st j"
  using assign_job_passes [of workers st j] by blast

lemma assign_job_within:
  assumes "within_capacity workers (worker_pool st)"
  shows "within_capacity workers (worker_pool (assign_job workers st j))"
proof (cases "spawns workers st j")
  case False
  from assign_job_passes [OF False] show ?thesis
    by (intro within_capacity_shorter [OF assms]) simp
next
  case True
  then obtain wc where wc: "workers (jobtype j) = Some wc"
    and lt: "int (length (pool_get (worker_pool st) (jobtype j))) < max_workers wc"
    by (auto simp: spawns_def split: option.splits)
  show ?thesis
    unfolding within_capacity_def
  proof
    fix jt
    show "case workers jt of
            None \<Rightarrow> pool_get (worker_pool (assign_job workers st j)) jt = []
          | Some wc \<Rightarrow> int (length (pool_get (worker_pool (assign_job workers st j)) jt)) \<le> max_workers wc"
    proof (cases "jt = jobtype j")
      case True
      with assign_job_spawns [OF \<open>spawns workers st j\<close>] wc lt show ?thesis by simp
    next
      case False
      with assign_job_spawns [OF \<open>spawns workers st j\<close>] within_capacityD [OF assms, of jt]
      show ?thesis by (cases "workers jt") simp_all
    qed
  qed
qed

lemma foldl_assign_job_within:
  "within_capacity workers (worker_pool st) \<Longrightarrow>
   within_capacity workers (worker_pool (foldl (assign_job workers) st js))"
  by (induction js arbitrary: st) (simp_all add: assign_job_within)

lemma reconcile_pool_within:
  assumes "within_capacity workers (worker_pool st)"
  shows "within_capacity workers (worker_pool (reconcile_pool al kn keys st))"
  using reconcile_pool_shrinks [of al kn keys st]
  by (intro within_capacity_shorter [OF assms]) simp

lemma worker_pool_delegate:
  "worker_pool (delegate workers al env st) =
   worker_pool (foldl (assign_job workers)
     (reconcile_pool al (map job_id (jobs (queue st))) (map fst (worker_pool st)) st) (jobs (queue st)))"
  by (simp add: delegate_def Let_def get_all_jobs_def)

lemma queue_delegate:
  "queue (delegate workers al env st) =
   env (queue (foldl (assign_job workers)
     (reconcile_pool al (map job_id (jobs (queue st))) (map fst (worker_pool st)) st) (jobs (queue st))))"
  by (simp add: delegate_def Let_def get_all_jobs_def)

lemma delegate_within:
  "within_capacity workers (worker_pool st) \<Longrightarrow>
   within_capacity workers (worker_pool (delegate workers al env st))"
  by (simp add: worker_pool_delegate foldl_assign_job_within reconcile_pool_within)

lemma loop_within:
  "within_capacity workers (worker_pool st) \<Longrightarrow>
   within_capacity workers (worker_pool (loop workers ticks st))"
  by (induction ticks arbitrary: st) (simp_all add: delegate_within)


text \<open>
  A job type at capacity during the assignment loop: its list stays as it is, and
  the records of its jobs stay as the snapshot \<open>snap\<close> has them.
\<close>

lemma foldl_assign_job_at_capacity:
  assumes "workers jt = Some wc"
    and "distinct (map job_id snap)"
    and "set js \<subseteq> set snap"
    and "max_workers wc \<le> int (length (pool_get (worker_pool st) jt))"
    and "list_all2 (\<lambda>r r0. job_id r = job_id r0 \<and> jobtype r = jobtype r0 \<and> (jobtype r0 = jt \<longrightarrow> r = r0))
           (jobs (queue st)) snap"
  shows "pool_get (worker_pool (foldl (assign_job workers) st js)) jt = pool_get (worker_pool st) jt \<and>
         list_all2 (\<lambda>r r0. job_id r = job_id r0 \<and> jobtype r = jobtype r0 \<and> (jobtype r0 = jt \<longrightarrow> r = r0))
           (jobs (queue (foldl (assign_job workers) st js))) snap"
  using assms(3-5)
proof (induction js arbitrary: st)
  case Nil
  then show ?case by simp
next
  case (Cons j js)
  let ?R = "\<lambda>r r0. job_id r = job_id r0 \<and> jobtype r = jobtype r0 \<and> (jobtype r0 = jt \<longrightarrow> r = r0)"
  let ?st1 = "assign_job workers st j"
  have step: "pool_get (worker_pool ?st1) jt = pool_get (worker_pool st) jt \<and>
              list_all2 ?R (jobs (queue ?st1)) snap"
  proof (cases "spawns workers st j")
    case False
    from assign_job_passes [OF False] Cons.prems(3) show ?thesis by simp
  next
    case True
    with assms(1) Cons.prems(2) have ne: "jobtype j \<noteq> jt"
      by (auto simp: spawns_def)
    from assign_job_spawns [OF True] ne
    have p: "pool_get (worker_pool ?st1) jt = pool_get (worker_pool st) jt"
      and c: "claim (queue st) j = Inr (queue ?st1)" by simp_all
    let ?f = "\<lambda>r. if job_id r = job_id j then r\<lparr>claimed := True\<rparr> else r"
    from claim_Inr [OF c] have q: "jobs (queue ?st1) = map ?f (jobs (queue st))" by simp
    from Cons.prems(1) have jin: "j \<in> set snap" by simp
    have "list_all2 ?R (map ?f (jobs (queue st))) snap"
      unfolding list_all2_conv_all_nth
    proof (intro conjI allI impI)
      from Cons.prems(3) show "length (map ?f (jobs (queue st))) = length snap"
        by (simp add: list_all2_lengthD)
    next
      fix p assume "p < length (map ?f (jobs (queue st)))"
      then have p: "p < length (jobs (queue st))" by simp
      with Cons.prems(3) have ps: "p < length snap" and R: "?R (jobs (queue st) ! p) (snap ! p)"
        by (simp_all add: list_all2_conv_all_nth)
      from p show "job_id (map ?f (jobs (queue st)) ! p) = job_id (snap ! p)"
        using R by simp
      from p show "jobtype (map ?f (jobs (queue st)) ! p) = jobtype (snap ! p)"
        using R by simp
      assume t: "jobtype (snap ! p) = jt"
      with R have same: "jobs (queue st) ! p = snap ! p" by simp
      have "job_id (snap ! p) \<noteq> job_id j"
      proof
        assume "job_id (snap ! p) = job_id j"
        with assms(2) jin ps have "snap ! p = j"
          by (metis distinct_map inj_on_def nth_mem)
        with t ne show False by simp
      qed
      with p same show "map ?f (jobs (queue st)) ! p = snap ! p" by simp
    qed
    with p q show ?thesis by simp
  qed
  from Cons.prems(1) have "set js \<subseteq> set snap" by simp
  moreover from step Cons.prems(2)
  have "max_workers wc \<le> int (length (pool_get (worker_pool ?st1) jt))" by simp
  ultimately show ?case
    using Cons.IH [of ?st1] step by simp
qed

lemma delegate_at_capacity:
  assumes "workers jt = Some wc"
    and "\<forall>w \<in> set (pool_get (worker_pool st) jt). al w"
    and "max_workers wc \<le> int (length (pool_get (worker_pool st) jt))"
    and "distinct (map job_id (jobs (queue st)))"
  shows "pool_get (worker_pool (delegate workers al env st)) jt = pool_get (worker_pool st) jt \<and>
         (\<exists>q'. queue (delegate workers al env st) = env q' \<and>
               (\<forall>j \<in> set (jobs (queue st)). jobtype j = jt \<longrightarrow> j \<in> set (jobs q')))"
proof -
  let ?R = "\<lambda>r r0. job_id r = job_id r0 \<and> jobtype r = jobtype r0 \<and> (jobtype r0 = jt \<longrightarrow> r = r0)"
  let ?st1 = "reconcile_pool al (map job_id (jobs (queue st))) (map fst (worker_pool st)) st"
  let ?st2 = "foldl (assign_job workers) ?st1 (jobs (queue st))"
  have p1: "pool_get (worker_pool ?st1) jt = pool_get (worker_pool st) jt"
    using assms(2) by (rule reconcile_pool_all_alive)
  have q1: "queue ?st1 = queue st" by (simp add: reconcile_pool_frame)
  have r1: "list_all2 ?R (jobs (queue ?st1)) (jobs (queue st))"
    by (simp add: q1 list_all2_conv_all_nth)
  have cap: "max_workers wc \<le> int (length (pool_get (worker_pool ?st1) jt))"
    using assms(3) p1 by simp
  have sub: "set (jobs (queue st)) \<subseteq> set (jobs (queue st))" by simp
  from foldl_assign_job_at_capacity [where workers = workers and js = "jobs (queue st)",
      OF assms(1,4) sub cap r1] p1
  have p2: "pool_get (worker_pool ?st2) jt = pool_get (worker_pool st) jt"
    and r2: "list_all2 ?R (jobs (queue ?st2)) (jobs (queue st))" by simp_all
  have "\<forall>j \<in> set (jobs (queue st)). jobtype j = jt \<longrightarrow> j \<in> set (jobs (queue ?st2))"
  proof (intro ballI impI)
    fix j assume "j \<in> set (jobs (queue st))" and t: "jobtype j = jt"
    then obtain p where p: "p < length (jobs (queue st))" "jobs (queue st) ! p = j"
      by (auto simp: in_set_conv_nth)
    with r2 t have "p < length (jobs (queue ?st2))" "jobs (queue ?st2) ! p = j"
      by (auto simp: list_all2_conv_all_nth)
    then show "j \<in> set (jobs (queue ?st2))" by (metis nth_mem)
  qed
  then show ?thesis
    using p2 by (auto simp: worker_pool_delegate queue_delegate)
qed


text \<open>
  Claim C2. The assignment step for a job claims it, starts a worker or changes the
  list of any job type only if the job is claimable, its job type has a registered
  worker class and the list of that job type is shorter than the class's
  \<open>max_workers\<close>. So a pool in which every registered job type has at most
  \<open>max_workers\<close> workers, and no other job type has any, is such a pool again
  after a tick and after any number of ticks; the empty pool of the start is one
  when no capacity is negative. When the list of a job type is at capacity and
  all its workers are live, a tick leaves the list as it is and the records of
  the jobs of that type as they are in the store: a claimable one stays unclaimed.
\<close>

theorem delegate_respects_capacity:
  "(calls (assign_job workers st j) \<noteq> calls st \<or> queue (assign_job workers st j) \<noteq> queue st \<or>
      (\<exists>t. pool_get (worker_pool (assign_job workers st j)) t \<noteq> pool_get (worker_pool st) t) \<longrightarrow>
      is_claimable (clock (queue st)) j \<and>
      (\<exists>wc. workers (jobtype j) = Some wc \<and>
            int (length (pool_get (worker_pool st) (jobtype j))) < max_workers wc)) \<and>
   (within_capacity workers (worker_pool st) \<longrightarrow>
      within_capacity workers (worker_pool (delegate workers al env st)) \<and>
      within_capacity workers (worker_pool (loop workers ticks st))) \<and>
   ((\<forall>t wc. workers t = Some wc \<longrightarrow> 0 \<le> max_workers wc) \<longrightarrow> within_capacity workers []) \<and>
   (workers jt = Some wc \<and> (\<forall>w \<in> set (pool_get (worker_pool st) jt). al w) \<and>
    max_workers wc \<le> int (length (pool_get (worker_pool st) jt)) \<and>
    distinct (map job_id (jobs (queue st))) \<longrightarrow>
      pool_get (worker_pool (delegate workers al env st)) jt = pool_get (worker_pool st) jt \<and>
      (\<exists>q'. queue (delegate workers al env st) = env q' \<and>
            (\<forall>j \<in> set (jobs (queue st)). jobtype j = jt \<longrightarrow> j \<in> set (jobs q'))))"
proof (intro conjI impI)
  assume "calls (assign_job workers st j) \<noteq> calls st \<or> queue (assign_job workers st j) \<noteq> queue st \<or>
      (\<exists>t. pool_get (worker_pool (assign_job workers st j)) t \<noteq> pool_get (worker_pool st) t)"
  then have s: "spawns workers st j" by (rule spawns_or_passes)
  then show "is_claimable (clock (queue st)) j" by (simp add: spawns_def)
  from s show "\<exists>wc. workers (jobtype j) = Some wc \<and>
            int (length (pool_get (worker_pool st) (jobtype j))) < max_workers wc"
    by (auto simp: spawns_def split: option.splits)
next
  assume "within_capacity workers (worker_pool st)"
  then show "within_capacity workers (worker_pool (delegate workers al env st))"
    and "within_capacity workers (worker_pool (loop workers ticks st))"
    by (simp_all add: delegate_within loop_within)
next
  assume "\<forall>t wc. workers t = Some wc \<longrightarrow> 0 \<le> max_workers wc"
  then show "within_capacity workers []"
    by (auto simp: within_capacity_def pool_get_def split: option.splits)
next
  assume a: "workers jt = Some wc \<and> (\<forall>w \<in> set (pool_get (worker_pool st) jt). al w) \<and>
    max_workers wc \<le> int (length (pool_get (worker_pool st) jt)) \<and>
    distinct (map job_id (jobs (queue st)))"
  then have r: "pool_get (worker_pool (delegate workers al env st)) jt = pool_get (worker_pool st) jt \<and>
         (\<exists>q'. queue (delegate workers al env st) = env q' \<and>
               (\<forall>j \<in> set (jobs (queue st)). jobtype j = jt \<longrightarrow> j \<in> set (jobs q')))"
    using delegate_at_capacity [of workers jt wc st al env] by blast
  from r show "pool_get (worker_pool (delegate workers al env st)) jt = pool_get (worker_pool st) jt" ..
  from r show "\<exists>q'. queue (delegate workers al env st) = env q' \<and>
               (\<forall>j \<in> set (jobs (queue st)). jobtype j = jt \<longrightarrow> j \<in> set (jobs q'))" ..
qed

theorem delegate_respects_capacity_witness:
  "a_job 3 ''board'' ''c'' False \<in> set (jobs (queue (delegate [''board'' \<mapsto> \<lparr>max_workers = 2\<rparr>] (\<lambda>w. True) id
      (a_manager [a_job 1 ''board'' ''a'' True, a_job 2 ''board'' ''b'' True, a_job 3 ''board'' ''c'' False]
         [(''board'', [a_worker 0 (a_job 1 ''board'' ''a'' True), a_worker 1 (a_job 2 ''board'' ''b'' True)])])))) \<and>
   pool_get (worker_pool (delegate [''board'' \<mapsto> \<lparr>max_workers = 2\<rparr>] (\<lambda>w. True) id
      (a_manager [a_job 1 ''board'' ''a'' True, a_job 2 ''board'' ''b'' True, a_job 3 ''board'' ''c'' False]
         [(''board'', [a_worker 0 (a_job 1 ''board'' ''a'' True), a_worker 1 (a_job 2 ''board'' ''b'' True)])]))) ''board''
     = [a_worker 0 (a_job 1 ''board'' ''a'' True), a_worker 1 (a_job 2 ''board'' ''b'' True)] \<and>
   within_capacity [''board'' \<mapsto> \<lparr>max_workers = 2\<rparr>] (worker_pool (delegate [''board'' \<mapsto> \<lparr>max_workers = 2\<rparr>] (\<lambda>w. True) id
      (a_manager [a_job 1 ''board'' ''a'' True, a_job 2 ''board'' ''b'' True, a_job 3 ''board'' ''c'' False]
         [(''board'', [a_worker 0 (a_job 1 ''board'' ''a'' True), a_worker 1 (a_job 2 ''board'' ''b'' True)])])))"
proof -
  let ?W = "[''board'' \<mapsto> \<lparr>max_workers = 2\<rparr>]"
  let ?pool = "[(''board'', [a_worker 0 (a_job 1 ''board'' ''a'' True), a_worker 1 (a_job 2 ''board'' ''b'' True)])]"
  let ?st = "a_manager [a_job 1 ''board'' ''a'' True, a_job 2 ''board'' ''b'' True, a_job 3 ''board'' ''c'' False] ?pool"
  note T = delegate_respects_capacity [where workers = ?W and st = ?st and al = "\<lambda>w. True" and env = id
      and jt = "''board''" and wc = "\<lparr>max_workers = 2\<rparr>"]
  have pg: "pool_get (worker_pool ?st) ''board'' =
      [a_worker 0 (a_job 1 ''board'' ''a'' True), a_worker 1 (a_job 2 ''board'' ''b'' True)]"
    by (simp add: a_manager_def pool_get_def)
  have w: "within_capacity ?W (worker_pool ?st)"
    by (auto simp: within_capacity_def a_manager_def pool_get_def)
  have h: "?W ''board'' = Some \<lparr>max_workers = 2\<rparr> \<and> (\<forall>w \<in> set (pool_get (worker_pool ?st) ''board''). True) \<and>
    max_workers \<lparr>max_workers = 2\<rparr> \<le> int (length (pool_get (worker_pool ?st) ''board'')) \<and>
    distinct (map job_id (jobs (queue ?st)))"
    by (simp add: a_manager_def a_job_def pool_get_def)
  from T [THEN conjunct2, THEN conjunct1, rule_format, OF w]
  have c1: "within_capacity ?W (worker_pool (delegate ?W (\<lambda>w. True) id ?st))" by simp
  from T [THEN conjunct2, THEN conjunct2, THEN conjunct2, rule_format, OF h]
  obtain q' where c2: "pool_get (worker_pool (delegate ?W (\<lambda>w. True) id ?st)) ''board'' = pool_get (worker_pool ?st) ''board''"
    and q': "queue (delegate ?W (\<lambda>w. True) id ?st) = id q'"
    and left: "\<forall>j \<in> set (jobs (queue ?st)). jobtype j = ''board'' \<longrightarrow> j \<in> set (jobs q')"
    by blast
  have "a_job 3 ''board'' ''c'' False \<in> set (jobs (queue ?st))" "jobtype (a_job 3 ''board'' ''c'' False) = ''board''"
    by (simp_all add: a_manager_def a_job_def)
  with left q' have "a_job 3 ''board'' ''c'' False \<in> set (jobs (queue (delegate ?W (\<lambda>w. True) id ?st)))"
    by simp
  with c1 c2 pg show ?thesis by simp
qed

section \<open>Interrupts for jobs deleted under a running worker\<close>

lemma once_refl: "once x s c s c"
  by (simp add: once_def)

lemma once_trans: "once x s c s1 c1 \<Longrightarrow> once x s1 c1 s2 c2 \<Longrightarrow> once x s c s2 c2"
  by (auto simp: once_def split: if_splits)

lemma issued_append: "issued x (c @ c') = issued x c + issued x c'"
  by (simp add: issued_def)

lemma reconcile_workers_once:
  "\<forall>w \<in> set ws. job_id (job w) = x \<longrightarrow> al w \<Longrightarrow> x \<notin> set kn \<Longrightarrow>
   once x s c (fst (snd (reconcile_workers al kn i ws s c))) (snd (snd (reconcile_workers al kn i ws s c)))"
proof (induction al kn i ws s c rule: reconcile_workers.induct)
  case (1 al kn i ws s c)
  show ?case
  proof (cases "i < length ws")
    case False
    then show ?thesis by (simp add: reconcile_workers.simps once_refl)
  next
    case True
    note i = this
    let ?w = "ws ! i"
    let ?y = "job_id (job ?w)"
    from i have win: "?w \<in> set ws" by simp
    show ?thesis
    proof (cases "al ?w")
      case False
      with "1.prems"(1) win have yx: "?y \<noteq> x" by blast
      let ?ws2 = "remove1 ?w ws"
      let ?s2 = "if ?y \<in> set s then remove1 ?y s else s"
      have step: "reconcile_workers al kn i ws s c =
                reconcile_workers al kn (Suc i) ?ws2 ?s2 (c @ [Join ?w])"
        using i False by (subst reconcile_workers.simps) simp
      have h2: "\<forall>w \<in> set ?ws2. job_id (job w) = x \<longrightarrow> al w"
        using "1.prems"(1) by (auto dest: notin_set_remove1)
      from yx have "x \<in> set ?s2 \<longleftrightarrow> x \<in> set s" by simp
      then have o1: "once x s c ?s2 (c @ [Join ?w])"
        by (simp add: once_def issued_append issued_def)
      from "1.IH"(1) [OF i False h2 "1.prems"(2)] o1 show ?thesis
        unfolding step by (rule once_trans [rotated])
    next
      case True
      note alive = this
      show ?thesis
      proof (cases "?y \<notin> set kn \<and> ?y \<notin> set s")
        case True
        have step: "reconcile_workers al kn i ws s c =
                reconcile_workers al kn (Suc i) ws (s @ [?y]) (c @ [Request_interrupt ?w None])"
          using i alive True by (subst reconcile_workers.simps) simp
        from True have o1: "once x s c (s @ [?y]) (c @ [Request_interrupt ?w None])"
          by (auto simp: once_def issued_append issued_def)
        from "1.IH"(2) [OF i _ True "1.prems"] alive o1 show ?thesis
          unfolding step by (auto intro: once_trans)
      next
        case False
        have step: "reconcile_workers al kn i ws s c = reconcile_workers al kn (Suc i) ws s c"
          using i alive False by (subst reconcile_workers.simps) auto
        from "1.IH"(3) [OF i _ False "1.prems"] alive show ?thesis
          unfolding step by simp
      qed
    qed
  qed
qed

lemma reconcile_pool_once:
  "\<forall>jt. \<forall>w \<in> set (pool_get (worker_pool st) jt). job_id (job w) = x \<longrightarrow> al w \<Longrightarrow> x \<notin> set kn \<Longrightarrow>
   once x (stopping_workers st) (calls st)
     (stopping_workers (reconcile_pool al kn keys st)) (calls (reconcile_pool al kn keys st))"
proof (induction keys arbitrary: st)
  case Nil
  then show ?case by (simp add: once_refl)
next
  case (Cons k keys)
  obtain ws s c where r: "reconcile_workers al kn 0 (pool_get (worker_pool st) k) (stopping_workers st) (calls st)
      = (ws, s, c)" by (cases "reconcile_workers al kn 0 (pool_get (worker_pool st) k) (stopping_workers st) (calls st)")
  let ?st1 = "st\<lparr>worker_pool := pool_set (worker_pool st) k ws, stopping_workers := s, calls := c\<rparr>"
  from Cons.prems(1) have hk: "\<forall>w \<in> set (pool_get (worker_pool st) k). job_id (job w) = x \<longrightarrow> al w"
    by blast
  from reconcile_workers_once [OF hk Cons.prems(2), of "stopping_workers st" "calls st" 0]
  have o1: "once x (stopping_workers st) (calls st) s c" by (simp add: r)
  have sub: "set ws \<subseteq> set (pool_get (worker_pool st) k)"
    using reconcile_workers_subset [of al kn 0 "pool_get (worker_pool st) k" "stopping_workers st" "calls st"]
    by (simp add: r)
  have h1: "\<forall>jt. \<forall>w \<in> set (pool_get (worker_pool ?st1) jt). job_id (job w) = x \<longrightarrow> al w"
    using Cons.prems(1) sub by (auto simp: pool_get_pool_set)
  from Cons.IH [OF h1 Cons.prems(2)] have "once x s c
     (stopping_workers (reconcile_pool al kn keys ?st1)) (calls (reconcile_pool al kn keys ?st1))"
    by simp
  with o1 show ?case by (simp add: r) (rule once_trans)
qed


lemma assign_job_once:
  "stopping_workers (assign_job workers st j) = stopping_workers st \<and>
   issued x (calls (assign_job workers st j)) = issued x (calls st) \<and>
   map job_id (jobs (queue (assign_job workers st j))) = map job_id (jobs (queue st)) \<and>
   (\<forall>jt w. w \<in> set (pool_get (worker_pool (assign_job workers st j)) jt) \<longrightarrow>
       w \<in> set (pool_get (worker_pool st) jt) \<or> job_id (job w) = job_id j)"
proof (cases "spawns workers st j")
  case False
  from assign_job_passes [OF False] show ?thesis by simp
next
  case True
  from assign_job_spawns [OF True] have
    c: "claim (queue st) j = Inr (queue (assign_job workers st j))"
    and p: "\<And>jt. pool_get (worker_pool (assign_job workers st j)) jt =
          (if jt = jobtype j
           then pool_get (worker_pool st) jt @ [\<lparr>handle = next_handle st, job = j\<lparr>claimed := True\<rparr>\<rparr>]
           else pool_get (worker_pool st) jt)"
    and k: "calls (assign_job workers st j) =
           calls st @ [Start \<lparr>handle = next_handle st, job = j\<lparr>claimed := True\<rparr>\<rparr>]"
    and s: "stopping_workers (assign_job workers st j) = stopping_workers st"
    by simp_all
  from claim_Inr [OF c] have "jobs (queue (assign_job workers st j)) =
      map (\<lambda>r. if job_id r = job_id j then r\<lparr>claimed := True\<rparr> else r) (jobs (queue st))"
    by simp
  then have ids: "map job_id (jobs (queue (assign_job workers st j))) = map job_id (jobs (queue st))"
    by (simp add: o_def if_distrib cong: if_cong)
  have "\<forall>jt w. w \<in> set (pool_get (worker_pool (assign_job workers st j)) jt) \<longrightarrow>
       w \<in> set (pool_get (worker_pool st) jt) \<or> job_id (job w) = job_id j"
    by (auto simp: p split: if_splits)
  with s k ids show ?thesis
    by (simp add: issued_append) (simp add: issued_def)
qed

lemma foldl_assign_job_once:
  "stopping_workers (foldl (assign_job workers) st js) = stopping_workers st \<and>
   issued x (calls (foldl (assign_job workers) st js)) = issued x (calls st) \<and>
   map job_id (jobs (queue (foldl (assign_job workers) st js))) = map job_id (jobs (queue st)) \<and>
   (\<forall>jt w. w \<in> set (pool_get (worker_pool (foldl (assign_job workers) st js)) jt) \<longrightarrow>
       w \<in> set (pool_get (worker_pool st) jt) \<or> job_id (job w) \<in> job_id ` set js)"
proof (induction js arbitrary: st)
  case Nil
  then show ?case by simp
next
  case (Cons j js)
  from Cons.IH [of "assign_job workers st j"] assign_job_once [of workers st j x]
  show ?case by (simp del: pool_set.simps) blast
qed

lemma delegate_once:
  assumes "bound_live x al st" and "x \<notin> job_id ` set (jobs (queue st))"
    and "\<forall>q. x \<notin> job_id ` set (jobs q) \<longrightarrow> x \<notin> job_id ` set (jobs (env q))"
  shows "once x (stopping_workers st) (calls st)
           (stopping_workers (delegate workers al env st)) (calls (delegate workers al env st)) \<and>
         x \<notin> job_id ` set (jobs (queue (delegate workers al env st))) \<and>
         (\<forall>al'. bound_live x al' st \<longrightarrow> bound_live x al' (delegate workers al env st))"
proof -
  let ?kn = "map job_id (jobs (queue st))"
  let ?st1 = "reconcile_pool al ?kn (map fst (worker_pool st)) st"
  let ?st2 = "foldl (assign_job workers) ?st1 (jobs (queue st))"
  have d: "delegate workers al env st = ?st2\<lparr>queue := env (queue ?st2)\<rparr>"
    by (simp add: delegate_def Let_def get_all_jobs_def)
  from assms(2) have kn: "x \<notin> set ?kn" by simp
  from assms(1) have "\<forall>jt. \<forall>w \<in> set (pool_get (worker_pool st) jt). job_id (job w) = x \<longrightarrow> al w"
    by (simp add: bound_live_def)
  from reconcile_pool_once [OF this kn]
  have o1: "once x (stopping_workers st) (calls st) (stopping_workers ?st1) (calls ?st1)" .
  note f = foldl_assign_job_once [of workers ?st1 "jobs (queue st)" x]
  from f have "once x (stopping_workers ?st1) (calls ?st1) (stopping_workers ?st2) (calls ?st2)"
    by (simp add: once_def)
  with o1 have "once x (stopping_workers st) (calls st) (stopping_workers ?st2) (calls ?st2)"
    by (rule once_trans)
  then have A: "once x (stopping_workers st) (calls st)
           (stopping_workers (delegate workers al env st)) (calls (delegate workers al env st))"
    by (simp add: d)
  from f have "map job_id (jobs (queue ?st2)) = map job_id (jobs (queue st))"
    by (simp add: reconcile_pool_frame)
  then have "job_id ` set (jobs (queue ?st2)) = job_id ` set (jobs (queue st))"
    by (metis set_map)
  with assms(2,3) have B: "x \<notin> job_id ` set (jobs (queue (delegate workers al env st)))"
    by (simp add: d)
  have C: "\<forall>al'. bound_live x al' st \<longrightarrow> bound_live x al' (delegate workers al env st)"
  proof (intro allI impI)
    fix al' assume b: "bound_live x al' st"
    show "bound_live x al' (delegate workers al env st)"
      unfolding bound_live_def
    proof (intro allI ballI impI)
      fix jt w
      assume w: "w \<in> set (pool_get (worker_pool (delegate workers al env st)) jt)" and x: "job_id (job w) = x"
      from w have "w \<in> set (pool_get (worker_pool ?st2) jt)" by (simp add: d)
      with f have "w \<in> set (pool_get (worker_pool ?st1) jt) \<or> job_id (job w) \<in> job_id ` set (jobs (queue st))"
        by blast
      with x assms(2) have "w \<in> set (pool_get (worker_pool ?st1) jt)" by auto
      with reconcile_pool_shrinks [of al ?kn "map fst (worker_pool st)" st jt]
      have "w \<in> set (pool_get (worker_pool st) jt)" by blast
      with b x show "al' w" by (auto simp: bound_live_def)
    qed
  qed
  from A B C show ?thesis by blast
qed

lemma loop_once:
  assumes "\<forall>t \<in> set ticks. bound_live x (fst t) st"
    and "x \<notin> job_id ` set (jobs (queue st))"
    and "\<forall>t \<in> set ticks. \<forall>q. x \<notin> job_id ` set (jobs q) \<longrightarrow> x \<notin> job_id ` set (jobs (snd t q))"
  shows "once x (stopping_workers st) (calls st)
           (stopping_workers (loop workers ticks st)) (calls (loop workers ticks st))"
  using assms
proof (induction ticks arbitrary: st)
  case Nil
  then show ?case by (simp add: once_refl)
next
  case (Cons t ticks)
  show ?case
  proof (cases "looping st")
    case False
    then show ?thesis by (simp add: once_refl)
  next
    case True
    let ?st1 = "delegate workers (fst t) (snd t) st"
    from Cons.prems have b: "bound_live x (fst t) st"
      and e: "\<forall>q. x \<notin> job_id ` set (jobs q) \<longrightarrow> x \<notin> job_id ` set (jobs (snd t q))"
      by simp_all
    from delegate_once [OF b Cons.prems(2) e, of workers]
    have o1: "once x (stopping_workers st) (calls st) (stopping_workers ?st1) (calls ?st1)"
      and a1: "x \<notin> job_id ` set (jobs (queue ?st1))"
      and l1: "\<forall>al'. bound_live x al' st \<longrightarrow> bound_live x al' ?st1"
      by blast+
    from l1 Cons.prems(1) have "\<forall>t \<in> set ticks. bound_live x (fst t) ?st1" by simp
    from Cons.IH [OF this a1] Cons.prems(3)
    have "once x (stopping_workers ?st1) (calls ?st1)
           (stopping_workers (loop workers ticks ?st1)) (calls (loop workers ticks ?st1))" by simp
    with o1 True show ?thesis by (simp del: once_def) (rule once_trans)
  qed
qed


lemma reconcile_workers_reached:
  assumes "\<forall>p \<in> set before. al p" and "al w" and "job_id (job w) = x" and "x \<notin> set kn"
    and "\<forall>w' \<in> set (before @ w # rest). job_id (job w') = x \<longrightarrow> al w'"
  shows "x \<in> set (fst (snd (reconcile_workers al kn 0 (before @ w # rest) s c)))"
proof -
  let ?ws = "before @ w # rest"
  from reconcile_workers_skip_alive [OF assms(1), of kn "[]" "w # rest" s c]
  obtain s1 c1 where skip: "reconcile_workers al kn 0 ?ws s c = reconcile_workers al kn (length before) ?ws s1 c1"
    by auto
  have i: "length before < length ?ws" by simp
  have at: "?ws ! length before = w" by (simp add: nth_append)
  show ?thesis
  proof (cases "x \<in> set s1")
    case True
    then have step: "reconcile_workers al kn (length before) ?ws s1 c1 =
        reconcile_workers al kn (Suc (length before)) ?ws s1 c1"
      using i at assms(2,3) by (subst reconcile_workers.simps) simp
    from reconcile_workers_once [OF assms(5,4), of s1 c1 "Suc (length before)"] True
    show ?thesis unfolding skip step by (simp add: once_def)
  next
    case False
    then have step: "reconcile_workers al kn (length before) ?ws s1 c1 =
        reconcile_workers al kn (Suc (length before)) ?ws (s1 @ [x]) (c1 @ [Request_interrupt w None])"
      using i at assms(2,3,4) by (subst reconcile_workers.simps) simp
    from reconcile_workers_once [OF assms(5,4), of "s1 @ [x]" "c1 @ [Request_interrupt w None]" "Suc (length before)"]
    show ?thesis unfolding skip step by (simp add: once_def)
  qed
qed

lemma reconcile_pool_reached:
  assumes "x \<notin> set kn"
  shows "\<forall>jt'. \<forall>w' \<in> set (pool_get (worker_pool st) jt'). job_id (job w') = x \<longrightarrow> al w' \<Longrightarrow>
    jt \<in> set keys \<Longrightarrow> pool_get (worker_pool st) jt = before @ w # rest \<Longrightarrow>
    \<forall>p \<in> set before. al p \<Longrightarrow> job_id (job w) = x \<Longrightarrow>
    x \<in> set (stopping_workers (reconcile_pool al kn keys st))"
proof (induction keys arbitrary: st)
  case Nil
  then show ?case by simp
next
  case (Cons k keys)
  obtain ws s c where r: "reconcile_workers al kn 0 (pool_get (worker_pool st) k) (stopping_workers st) (calls st)
      = (ws, s, c)" by (cases "reconcile_workers al kn 0 (pool_get (worker_pool st) k) (stopping_workers st) (calls st)")
  let ?st1 = "st\<lparr>worker_pool := pool_set (worker_pool st) k ws, stopping_workers := s, calls := c\<rparr>"
  have sub: "set ws \<subseteq> set (pool_get (worker_pool st) k)"
    using reconcile_workers_subset [of al kn 0 "pool_get (worker_pool st) k" "stopping_workers st" "calls st"]
    by (simp add: r)
  have h1: "\<forall>jt'. \<forall>w' \<in> set (pool_get (worker_pool ?st1) jt'). job_id (job w') = x \<longrightarrow> al w'"
    using Cons.prems(1) sub by (auto simp: pool_get_pool_set)
  show ?case
  proof (cases "k = jt")
    case True
    from Cons.prems(1,3) have hw: "\<forall>w' \<in> set (before @ w # rest). job_id (job w') = x \<longrightarrow> al w'"
      by metis
    then have "al w" using Cons.prems(5) by simp
    moreover from r True Cons.prems(3)
    have "reconcile_workers al kn 0 (before @ w # rest) (stopping_workers st) (calls st) = (ws, s, c)"
      by simp
    ultimately have "x \<in> set s"
      using reconcile_workers_reached [OF Cons.prems(4) _ Cons.prems(5) assms hw, of "stopping_workers st" "calls st"]
      by simp
    moreover from reconcile_pool_once [OF h1 assms, of keys]
    have "once x s c (stopping_workers (reconcile_pool al kn keys ?st1)) (calls (reconcile_pool al kn keys ?st1))"
      by simp
    ultimately show ?thesis by (simp add: r once_def)
  next
    case False
    with Cons.prems(2) have "jt \<in> set keys" by simp
    moreover from False Cons.prems(3) have "pool_get (worker_pool ?st1) jt = before @ w # rest"
      by (simp add: pool_get_pool_set)
    ultimately show ?thesis
      using Cons.IH [OF h1 _ _ Cons.prems(4,5)] by (simp add: r)
  qed
qed

lemma delegate_reached:
  assumes "bound_live x al st" and "x \<notin> job_id ` set (jobs (queue st))"
    and "pool_get (worker_pool st) jt = before @ w # rest"
    and "\<forall>p \<in> set before. al p" and "job_id (job w) = x"
  shows "x \<in> set (stopping_workers (delegate workers al env st))"
proof -
  let ?kn = "map job_id (jobs (queue st))"
  let ?st1 = "reconcile_pool al ?kn (map fst (worker_pool st)) st"
  from assms(2) have kn: "x \<notin> set ?kn" by simp
  from assms(3) have "pool_get (worker_pool st) jt \<noteq> []" by simp
  then have key: "jt \<in> set (map fst (worker_pool st))"
    using pool_get_absent by blast
  from assms(1) have "\<forall>jt'. \<forall>w' \<in> set (pool_get (worker_pool st) jt'). job_id (job w') = x \<longrightarrow> al w'"
    by (simp add: bound_live_def)
  from reconcile_pool_reached [OF kn this key assms(3,4,5)]
  have "x \<in> set (stopping_workers ?st1)" .
  with foldl_assign_job_once [of workers ?st1 "jobs (queue st)" x] show ?thesis
    by (simp add: delegate_def Let_def get_all_jobs_def)
qed


text \<open>
  Claim C1, as the code has it. Take a job id that is absent from the store and is
  not created again, and ticks during which every pool worker bound to it is
  live. Over all these ticks the loop issues at most one interrupt for the job;
  none if the id is already in the stopping set; and the id is in the stopping
  set at the end exactly if it was there at the start or the interrupt was
  issued, so it is never dropped while the workers are live. The interrupt is
  issued, exactly one, when in the first tick the pass reaches such a worker:
  every entry before it in the list of its job type is live.
\<close>

theorem loop_interrupts_at_most_once:
  assumes "\<forall>t \<in> set ticks. bound_live x (fst t) st"
    and "x \<notin> job_id ` set (jobs (queue st))"
    and "\<forall>t \<in> set ticks. \<forall>q. x \<notin> job_id ` set (jobs q) \<longrightarrow> x \<notin> job_id ` set (jobs (snd t q))"
  shows "issued x (calls st) \<le> issued x (calls (loop workers ticks st)) \<and>
         issued x (calls (loop workers ticks st)) \<le> issued x (calls st) + 1 \<and>
         (x \<in> set (stopping_workers st) \<longrightarrow>
            issued x (calls (loop workers ticks st)) = issued x (calls st)) \<and>
         (x \<in> set (stopping_workers (loop workers ticks st)) \<longleftrightarrow>
            x \<in> set (stopping_workers st) \<or>
            issued x (calls (loop workers ticks st)) = issued x (calls st) + 1) \<and>
         (\<forall>t later jt before w rest.
            ticks = t # later \<and> looping st \<and> x \<notin> set (stopping_workers st) \<and>
            pool_get (worker_pool st) jt = before @ w # rest \<and> (\<forall>p \<in> set before. fst t p) \<and>
            job_id (job w) = x \<longrightarrow>
            issued x (calls (loop workers ticks st)) = issued x (calls st) + 1)"
proof -
  let ?end = "loop workers ticks st"
  from loop_once [OF assms, of workers]
  have o: "once x (stopping_workers st) (calls st) (stopping_workers ?end) (calls ?end)" .
  have reached: "issued x (calls ?end) = issued x (calls st) + 1"
    if t: "ticks = t # later" and l: "looping st" and n: "x \<notin> set (stopping_workers st)"
      and p: "pool_get (worker_pool st) jt = before @ w # rest" and b: "\<forall>p \<in> set before. fst t p"
      and w: "job_id (job w) = x"
    for t later jt before w rest
  proof -
    let ?st1 = "delegate workers (fst t) (snd t) st"
    from assms(1) t have bl: "bound_live x (fst t) st" by simp
    from assms(3) t have e: "\<forall>q. x \<notin> job_id ` set (jobs q) \<longrightarrow> x \<notin> job_id ` set (jobs (snd t q))"
      by simp
    from delegate_reached [OF bl assms(2) p b w, of workers "snd t"]
    have in1: "x \<in> set (stopping_workers ?st1)" .
    from delegate_once [OF bl assms(2) e, of workers]
    have a1: "x \<notin> job_id ` set (jobs (queue ?st1))"
      and l1: "\<forall>al'. bound_live x al' st \<longrightarrow> bound_live x al' ?st1"
      by blast+
    from l1 assms(1) t have b1: "\<forall>t \<in> set later. bound_live x (fst t) ?st1" by simp
    from assms(3) t have e1: "\<forall>t \<in> set later. \<forall>q. x \<notin> job_id ` set (jobs q) \<longrightarrow>
        x \<notin> job_id ` set (jobs (snd t q))" by simp
    from loop_once [OF b1 a1 e1, of workers] in1
    have "x \<in> set (stopping_workers (loop workers later ?st1))"
      by (simp add: once_def)
    with t l have "x \<in> set (stopping_workers ?end)" by simp
    with o n show ?thesis by (auto simp: once_def)
  qed
  from o have "issued x (calls st) \<le> issued x (calls ?end)"
    and "issued x (calls ?end) \<le> issued x (calls st) + 1"
    and "x \<in> set (stopping_workers st) \<longrightarrow> issued x (calls ?end) = issued x (calls st)"
    and "x \<in> set (stopping_workers ?end) \<longleftrightarrow>
            x \<in> set (stopping_workers st) \<or> issued x (calls ?end) = issued x (calls st) + 1"
    by (auto simp: once_def split: if_splits)
  with reached show ?thesis by blast
qed

theorem loop_interrupts_at_most_once_witness:
  "issued 2 (calls (loop [''board'' \<mapsto> \<lparr>max_workers = 2\<rparr>]
       [(\<lambda>w. True, id), (\<lambda>w. True, id), (\<lambda>w. True, id)]
       (a_manager [] [(''board'', [a_worker 1 (a_job 2 ''board'' ''b'' True)])]))) = 1"
proof -
  let ?W = "[''board'' \<mapsto> \<lparr>max_workers = 2\<rparr>]"
  let ?w = "a_worker 1 (a_job 2 ''board'' ''b'' True)"
  let ?st = "a_manager [] [(''board'', [?w])]"
  let ?t = "(\<lambda>w::worker. True, id :: store \<Rightarrow> store)"
  have h1: "\<forall>t \<in> set [?t, ?t, ?t]. bound_live 2 (fst t) ?st"
    by (simp add: bound_live_def)
  have h2: "2 \<notin> job_id ` set (jobs (queue ?st))"
    by (simp add: a_manager_def)
  have h3: "\<forall>t \<in> set [?t, ?t, ?t]. \<forall>q. 2 \<notin> job_id ` set (jobs q) \<longrightarrow> 2 \<notin> job_id ` set (jobs (snd t q))"
    by simp
  have r: "[?t, ?t, ?t] = ?t # [?t, ?t] \<and> looping ?st \<and> 2 \<notin> set (stopping_workers ?st) \<and>
      pool_get (worker_pool ?st) ''board'' = [] @ ?w # [] \<and> (\<forall>p \<in> set []. fst ?t p) \<and>
      job_id (job ?w) = 2"
    by (simp add: a_manager_def a_worker_def a_job_def pool_get_def)
  from loop_interrupts_at_most_once [OF h1 h2 h3, of ?W]
  have "\<forall>t later jt before w rest.
            [?t, ?t, ?t] = t # later \<and> looping ?st \<and> 2 \<notin> set (stopping_workers ?st) \<and>
            pool_get (worker_pool ?st) jt = before @ w # rest \<and> (\<forall>p \<in> set before. fst t p) \<and>
            job_id (job w) = 2 \<longrightarrow>
            issued 2 (calls (loop ?W [?t, ?t, ?t] ?st)) = issued 2 (calls ?st) + 1"
    by blast
  from this [rule_format, OF r] show ?thesis
    by (simp add: a_manager_def issued_def)
qed

text \<open>
  Two runs. In the first a live worker whose job is gone stands behind a non-live
  one: the pass removes the non-live one and skips the live one, which then stops
  before the next tick without ever having been interrupted. In the second a
  worker releases its job while still running, the job is claimed again for a
  second worker and then deleted; the first worker is interrupted, the second
  stops and takes the job id out of the stopping set, and the first worker, still
  draining, is interrupted again.
\<close>

theorem loop_interrupts_counterexample:
  "a_worker 1 (a_job 2 ''board'' ''b'' True) \<in> set (pool_get (worker_pool
       (a_manager [] [(''board'', [a_worker 0 (a_job 1 ''board'' ''a'' True),
                                  a_worker 1 (a_job 2 ''board'' ''b'' True)])])) ''board'') \<and>
   handle (a_worker 1 (a_job 2 ''board'' ''b'' True)) \<noteq> 0 \<and>
   2 \<notin> set (map job_id (get_all_jobs (queue
       (a_manager [] [(''board'', [a_worker 0 (a_job 1 ''board'' ''a'' True),
                                  a_worker 1 (a_job 2 ''board'' ''b'' True)])])) None None False)) \<and>
   issued 2 (calls (loop [''board'' \<mapsto> \<lparr>max_workers = 2\<rparr>]
       [(\<lambda>w. handle w \<noteq> 0, id), (\<lambda>w. False, id)]
       (a_manager [] [(''board'', [a_worker 0 (a_job 1 ''board'' ''a'' True),
                                  a_worker 1 (a_job 2 ''board'' ''b'' True)])]))) = 0 \<and>
   pool_get (worker_pool (loop [''board'' \<mapsto> \<lparr>max_workers = 2\<rparr>]
       [(\<lambda>w. handle w \<noteq> 0, id), (\<lambda>w. False, id)]
       (a_manager [] [(''board'', [a_worker 0 (a_job 1 ''board'' ''a'' True),
                                  a_worker 1 (a_job 2 ''board'' ''b'' True)])]))) ''board'' = [] \<and>
   filter (interrupts_job 1) (calls (loop [''board'' \<mapsto> \<lparr>max_workers = 2\<rparr>]
       [(\<lambda>w. True, \<lambda>q. release q (a_job 1 ''board'' ''a'' False) 10 0),
        (\<lambda>w. True, \<lambda>q. finish q (a_job 1 ''board'' ''a'' False) True),
        (\<lambda>w. True, id),
        (\<lambda>w. handle w \<noteq> 101, id),
        (\<lambda>w. True, id)]
       (a_manager [a_job 1 ''board'' ''a'' False] [])))
   = [Request_interrupt \<lparr>handle = 100, job = a_job 1 ''board'' ''a'' True\<rparr> None,
      Request_interrupt \<lparr>handle = 100, job = a_job 1 ''board'' ''a'' True\<rparr> None]"
  by (simp add: delegate_def Let_def get_all_jobs_def reconcile_workers.simps a_manager_def a_worker_def
      a_job_def pool_get_def assign_job_def is_claimable_def claim_def release_def finish_def issued_def)

end
